theory Spec2Isabelle
  imports Main "HOL-Library.Word"
begin

section \<open>Plain objects: keys in the order the language enumerates them\<close>

text \<open>
  The static \<open>#binBuffer\<close> and the accumulated \<open>#data\<close> of \<open>pdfparser.js\<close> are plain
  objects. An object is modelled by its own enumerable string-keyed properties, in the
  order in which \<open>Object.keys\<close> lists them: keys that are array indices first, in
  ascending numeric order, then every other key in insertion order. lodash's \<open>_.keys\<close> lists the own keys of such
  an object in that order; its \<open>_.has\<close> is modelled further down.
\<close>

type_synonym 'v jsobj = "(string \<times> 'v) list"

definition is_digit :: "char \<Rightarrow> bool" where
  "is_digit c = (c \<in> set ''0123456789'')"

definition digit_val :: "char \<Rightarrow> int" where
  "digit_val c = of_char c - of_char (CHR ''0'')"

definition decimal_val :: "string \<Rightarrow> int" where
  "decimal_val s = foldl (\<lambda>n c. 10 * n + digit_val c) 0 s"

fun canonical_numeral :: "string \<Rightarrow> bool" where
  "canonical_numeral [] = False"
| "canonical_numeral [c] = is_digit c"
| "canonical_numeral (c # cs) = (is_digit c \<and> c \<noteq> CHR ''0'' \<and> list_all is_digit cs)"

definition is_array_index :: "string \<Rightarrow> bool" where
  "is_array_index k = (canonical_numeral k \<and> decimal_val k < 4294967295)"

definition obj_has :: "'v jsobj \<Rightarrow> string \<Rightarrow> bool" where
  "obj_has obj k = (k \<in> set (map fst obj))"

definition obj_get :: "'v jsobj \<Rightarrow> string \<Rightarrow> 'v option" where
  "obj_get obj k = map_of obj k"

definition obj_keys :: "'v jsobj \<Rightarrow> string list" where
  "obj_keys obj = map fst obj"

definition obj_delete :: "string \<Rightarrow> 'v jsobj \<Rightarrow> 'v jsobj" where
  "obj_delete k obj = filter (\<lambda>kv. fst kv \<noteq> k) obj"

text \<open>Where a key that the object does not hold yet is placed.\<close>

fun obj_insert :: "string \<Rightarrow> 'v \<Rightarrow> 'v jsobj \<Rightarrow> 'v jsobj" where
  "obj_insert k v [] = [(k, v)]"
| "obj_insert k v ((k', v') # rest) =
     (if is_array_index k \<and>
         (if is_array_index k' then decimal_val k < decimal_val k' else True)
      then (k, v) # (k', v') # rest
      else (k', v') # obj_insert k v rest)"

text \<open>\<open>obj[k] = v\<close>: an existing key keeps its place, a new one is placed by \<open>obj_insert\<close>.\<close>

definition obj_set :: "string \<Rightarrow> 'v \<Rightarrow> 'v jsobj \<Rightarrow> 'v jsobj" where
  "obj_set k v obj =
     (if obj_has obj k then map (\<lambda>kv. if fst kv = k then (k, v) else kv) obj
      else obj_insert k v obj)"

text \<open>\<open>{...a, ...b}\<close>, where \<open>a\<close> may be \<open>null\<close> (which spreads to nothing).\<close>

definition spread :: "'v jsobj option \<Rightarrow> 'v jsobj \<Rightarrow> 'v jsobj" where
  "spread a b =
     fold (\<lambda>kv. obj_set (fst kv) (snd kv)) ((case a of None \<Rightarrow> [] | Some r \<Rightarrow> r) @ b) []"


section \<open>lodash's \<open>_.has\<close> on the cache\<close>

text \<open>
  \<open>#processBinaryCache\<close> asks \<open>_.has(PDFParser.#binBuffer, this.binBufferKey)\<close>. lodash is
  not part of the file; what follows renders \<open>has\<close>, \<open>hasPath\<close>, \<open>castPath\<close>, \<open>isKey\<close> and
  \<open>stringToPath\<close> of lodash 4.17 for the arguments they get here: a plain object holding
  Buffers, and a key that is a number or a string. A number, and a string that \<open>isKey\<close>
  accepts, is looked up as an own key. Any other string is split into a property path by
  \<open>stringToPath\<close>, and the path is followed with \<open>hasOwnProperty\<close> at every level: into
  the cache, then into the Buffer found there (whose own keys are its indices), then into
  a byte (which has none). Strings are sequences of bytes here; \<open>\w\<close> and \<open>\d\<close> are ASCII
  classes, as in JavaScript.
\<close>

text \<open>\<open>reIsPlainProp = /^\w*$/\<close>.\<close>

definition word_char :: "char \<Rightarrow> bool" where
  "word_char c = (c \<in> set ''abcdefghijklmnopqrstuvwxyzABCDEFGHIJKLMNOPQRSTUVWXYZ0123456789_'')"

definition reIsPlainProp :: "string \<Rightarrow> bool" where
  "reIsPlainProp s = list_all word_char s"

text \<open>
  A quoted key after \<open>[\<close> and the quote \<open>q\<close>: units that are a character other than \<open>q\<close>
  and the backslash, or a backslash and any character but a line end, up to \<open>q\<close> followed
  by \<open>]\<close>. The result is the text between the quotes and what follows the bracket.
\<close>

definition quote_char :: "char \<Rightarrow> bool" where
  "quote_char c = (c = CHR 0x22 \<or> c = CHR 0x27)"

definition line_end :: "char \<Rightarrow> bool" where
  "line_end c = (c = CHR 0x0A \<or> c = CHR 0x0D)"

fun quoted :: "char \<Rightarrow> string \<Rightarrow> (string \<times> string) option" where
  "quoted q [] = None"
| "quoted q [c] = None"
| "quoted q (c # d # cs) =
     (if c = q then (if d = CHR '']'' then Some ([], cs) else None)
      else if c = CHR 0x5C then
        (if line_end d then None
         else map_option (\<lambda>xr. (c # d # fst xr, snd xr)) (quoted q cs))
      else map_option (\<lambda>xr. (c # fst xr, snd xr)) (quoted q (d # cs)))"

text \<open>\<open>subString.replace(reEscapeChar, '$1')\<close> with \<open>reEscapeChar = /\\(\\)?/g\<close>.\<close>

fun unescape :: "string \<Rightarrow> string" where
  "unescape [] = []"
| "unescape [c] = (if c = CHR 0x5C then [] else [c])"
| "unescape (c # d # cs) =
     (if c = CHR 0x5C then (if d = CHR 0x5C then d # unescape cs else unescape (d # cs))
      else c # unescape (d # cs))"

text \<open>
  \<open>reIsDeepProp\<close>: the string holds a dot, or a \<open>[\<close> followed by characters other than
  brackets and then \<open>]\<close>, or a \<open>[\<close> followed by a quoted key and \<open>]\<close>.
\<close>

fun closes_plain :: "string \<Rightarrow> bool" where
  "closes_plain [] = False"
| "closes_plain (c # cs) =
     (if c = CHR '']'' then True else if c = CHR ''['' then False else closes_plain cs)"

definition opens_quoted :: "string \<Rightarrow> bool" where
  "opens_quoted s = (case s of [] \<Rightarrow> False | q # r \<Rightarrow> quote_char q \<and> quoted q r \<noteq> None)"

fun reIsDeepProp :: "string \<Rightarrow> bool" where
  "reIsDeepProp [] = False"
| "reIsDeepProp (c # cs) =
     (if c = CHR ''.'' then True
      else if c = CHR ''['' \<and> (closes_plain cs \<or> opens_quoted cs) then True
      else reIsDeepProp cs)"

text \<open>
  \<open>isKey(value, object)\<close> for a string: \<open>reIsPlainProp.test(value) || !reIsDeepProp.test(value)
  || value in Object(object)\<close>. The properties a plain object inherits all have plain names,
  so the last test only matters for own keys.
\<close>

definition isKey :: "string \<Rightarrow> 'v jsobj \<Rightarrow> bool" where
  "isKey s obj =
     (if reIsPlainProp s then True else if reIsDeepProp s then obj_has obj s else True)"

text \<open>
  \<open>rePropName\<close> has three alternatives, tried in this order at each position: a run of
  characters other than \<open>.\<close>, \<open>[\<close> and \<open>]\<close>; a bracket holding a number
  (\<open>-?\d+(?:\.\d+)?\<close>) or a quoted key; and the empty match in front of a separator
  (\<open>.\<close> or \<open>[]\<close>) that is itself followed by a separator or the end. \<open>number_token\<close> and
  \<open>bracket_token\<close> read what follows the \<open>[\<close> and give the value pushed and the rest.
\<close>

definition number_token :: "string \<Rightarrow> (string \<times> string) option" where
  "number_token s =
     (let sign = takeWhile (\<lambda>c. c = CHR ''-'') (take 1 s);
          s1 = drop (length sign) s;
          ip = takeWhile is_digit s1;
          s2 = dropWhile is_digit s1
      in if ip = [] then None
         else (case s2 of
                 [] \<Rightarrow> None
               | c # r \<Rightarrow>
                   if c = CHR '']'' then Some (sign @ ip, r)
                   else if c = CHR ''.'' then
                     (let fp = takeWhile is_digit r; s3 = dropWhile is_digit r
                      in if fp = [] then None
                         else (case s3 of
                                 [] \<Rightarrow> None
                               | d # r' \<Rightarrow>
                                   if d = CHR '']'' then Some (sign @ ip @ c # fp, r') else None))
                   else None))"

definition bracket_token :: "string \<Rightarrow> (string \<times> string) option" where
  "bracket_token s =
     (case number_token s of
        Some x \<Rightarrow> Some x
      | None \<Rightarrow>
          (case s of
             [] \<Rightarrow> None
           | q # r \<Rightarrow>
               if quote_char q then map_option (\<lambda>xr. (unescape (fst xr), snd xr)) (quoted q r)
               else None))"

fun sep_rest :: "string \<Rightarrow> string option" where
  "sep_rest [] = None"
| "sep_rest (c # cs) =
     (if c = CHR ''.'' then Some cs
      else if c = CHR ''['' then
        (case cs of [] \<Rightarrow> None | d # r \<Rightarrow> if d = CHR '']'' then Some r else None)
      else None)"

definition at_empty_segment :: "string \<Rightarrow> bool" where
  "at_empty_segment s =
     (case sep_rest s of
        None \<Rightarrow> False
      | Some r \<Rightarrow> (case r of [] \<Rightarrow> True | _ # _ \<Rightarrow> sep_rest r \<noteq> None))"

definition seg_char :: "char \<Rightarrow> bool" where
  "seg_char c = (c \<notin> set ''.[]'')"

text \<open>The match at the head of the string, if any: the value pushed and how far to go on.\<close>

definition match_at :: "string \<Rightarrow> (string \<times> nat) option" where
  "match_at s =
     (case s of
        [] \<Rightarrow> None
      | c # cs \<Rightarrow>
          if seg_char c then Some (takeWhile seg_char s, length (takeWhile seg_char s))
          else (case (if c = CHR ''['' then bracket_token cs else None) of
                  Some tr \<Rightarrow> Some (fst tr, length s - length (snd tr))
                | None \<Rightarrow> if at_empty_segment s then Some ([], 1) else None))"

text \<open>
  The global \<open>replace\<close>: \<open>scan k\<close> passes over \<open>k\<close> characters of the last match, then
  looks for the next match at each position in turn; after an empty match, and where
  nothing matches, it moves on by one character.
\<close>

fun scan :: "nat \<Rightarrow> string \<Rightarrow> string list" where
  "scan k [] = []"
| "scan (Suc k) (c # cs) = scan k cs"
| "scan 0 (c # cs) =
     (case match_at (c # cs) of
        None \<Rightarrow> scan 0 cs
      | Some tn \<Rightarrow> fst tn # scan (snd tn - 1) cs)"

definition stringToPath :: "string \<Rightarrow> string list" where
  "stringToPath s = (if take 1 s = ''.'' then [ [] ] else []) @ scan 0 s"

text \<open>A key as \<open>_.has\<close> receives it: a number (given by its rendering) or a string.\<close>

datatype jskey = NumKey string | StrKey string

fun key_string :: "jskey \<Rightarrow> string" where
  "key_string (NumKey s) = s"
| "key_string (StrKey s) = s"

text \<open>The own keys of a Buffer are its indices, written without sign or leading zero.\<close>

definition buffer_hasOwn :: "8 word list \<Rightarrow> string \<Rightarrow> bool" where
  "buffer_hasOwn buf k = (canonical_numeral k \<and> decimal_val k < int (length buf))"

text \<open>
  \<open>hasPath\<close> with \<open>baseHas\<close>: every element of the path has to be an own key of the value
  reached so far. A path of one element asks the cache, one of two asks the Buffer under
  the first, a longer one asks a byte and fails, and so does the empty path. The closing
  test of \<open>hasPath\<close> for arrays and \<open>arguments\<close> objects is false for all of these values.
\<close>

definition lodash_has :: "(8 word list) jsobj \<Rightarrow> jskey \<Rightarrow> bool" where
  "lodash_has cache key =
     (case key of
        NumKey s \<Rightarrow> obj_has cache s
      | StrKey s \<Rightarrow>
          if isKey s cache then obj_has cache s
          else (case stringToPath s of
                  [] \<Rightarrow> False
                | a # rest \<Rightarrow>
                    (case rest of
                       [] \<Rightarrow> obj_has cache a
                     | b # more \<Rightarrow>
                         (case more of
                            [] \<Rightarrow> (case obj_get cache a of
                                      None \<Rightarrow> False
                                    | Some buf \<Rightarrow> buffer_hasOwn buf b)
                          | _ # _ \<Rightarrow> False))))"


section \<open>The parser, its statics and its surroundings\<close>

text \<open>
  \<open>fs\<close>, the \<open>async\<close> queue and the PDFJS engine are outside the file. What they hand to
  the parser arrives as an argument of the step that receives it: the outcome of
  \<open>fs.statSync\<close> with \<open>loadPDF\<close>, the outcome of \<open>fs.readFile\<close> with the completion of
  the queue's head task, and each signal of the engine with \<open>pdfjs_emit\<close>. What the parser
  does to the outside is appended to a trace. \<open>mtimeMs\<close> is a number of which the code only
  ever takes the string conversion (in \<open>binBufferKey\<close>), so it is carried as that string.
  The counter \<open>#nextId\<close> is a natural number: the code has no wrap-around handling, and the
  range in which a JavaScript number counts exactly (up to \<open>2 ^ 53\<close>) is never left in
  practice. Listeners on the parser's own two events are taken not to call back into it.
\<close>

type_synonym bytes = "8 word list"
type_synonym err = string

record shared =
  nextId :: nat
  binBuffer :: "bytes jsobj"

definition maxBinBufferCount :: nat where
  "maxBinBufferCount = 10"

datatype pdfjs_event = Pdfjs_parseDataReady | Pdfjs_parseDataError

text \<open>
  A signal of the engine: \<open>pdfjs_parseDataReady\<close> with an object, or with \<open>null\<close> at the end
  of the parsed data, and \<open>pdfjs_parseDataError\<close> with the error.
\<close>

datatype 'v pdfjs_signal = ParseDataReady "'v jsobj option" | ParseDataError err

record 'v parser =
  inst_id :: nat
  password :: "string option"
  fq :: "string list"
  pdfFilePath :: "string option"
  pdfFileMTime :: "string option"
  data :: "'v jsobj option"
  pdfjsListeners :: "pdfjs_event list"

text \<open>
  \<open>fq\<close> holds the paths of the read tasks not yet completed, oldest first (the queue has
  concurrency 1 and every task's callback is \<open>#processPDFContent\<close>). \<open>pdfjsListeners\<close> holds
  one entry per \<open>this.#PDFJS.on(...)\<close> registration, in registration order: the code only
  ever registers \<open>#onPDFJSParseDataReady\<close> on \<open>pdfjs_parseDataReady\<close> and
  \<open>#onPDFJSParserDataError\<close> on \<open>pdfjs_parseDataError\<close>, so the event names the listener.
\<close>

datatype parser_event = PdfParser_dataReady | PdfParser_dataError

datatype 'v payload =
    FormImage "'v jsobj option"   \<comment> \<open>\<open>{"formImage": data}\<close>\<close>
  | ParserError err               \<comment> \<open>\<open>{"parserError": e}\<close>\<close>
  | Bare err                      \<comment> \<open>the error itself\<close>

datatype 'v effect =
    Emit parser_event "'v payload"            \<comment> \<open>\<open>this.emit(name, payload)\<close>\<close>
  | ParsePDFData "bytes option" "string option" \<comment> \<open>\<open>this.#PDFJS.parsePDFData(buffer, password)\<close>\<close>
  | ReadFile string                           \<comment> \<open>\<open>fs.readFile(task.path, callback)\<close>\<close>
  | Thrown err                                \<comment> \<open>an exception leaving the method\<close>

record 'v machine =
  statics :: shared
  self :: "'v parser"
  trace :: "'v effect list"

definition construct :: "string option \<Rightarrow> shared \<Rightarrow> 'v parser \<times> shared" where
  "construct pw s =
     (\<lparr>inst_id = nextId s, password = pw, fq = [], pdfFilePath = None, pdfFileMTime = None,
       data = None, pdfjsListeners = []\<rparr>,
      s\<lparr>nextId := nextId s + 1\<rparr>)"

text \<open>
  \<open>this.#pdfFilePath + this.#pdfFileMTime\<close>: a string, by concatenation, once the path is
  set (\<open>null\<close> renders as \<open>null\<close>); a number, by addition, while the path is \<open>null\<close>
  (\<open>null\<close> counts 0). Used as a property key, either is converted to a string.
\<close>

definition binBufferKey :: "'v parser \<Rightarrow> jskey" where
  "binBufferKey p =
     (case pdfFilePath p of
        Some f \<Rightarrow> StrKey (f @ (case pdfFileMTime p of Some t \<Rightarrow> t | None \<Rightarrow> ''null''))
      | None \<Rightarrow> NumKey (case pdfFileMTime p of Some t \<Rightarrow> t | None \<Rightarrow> ''0''))"

definition emit :: "parser_event \<Rightarrow> 'v payload \<Rightarrow> 'v machine \<Rightarrow> 'v machine" where
  "emit ev x m = m\<lparr>trace := trace m @ [Emit ev x]\<rparr>"

definition set_data :: "'v jsobj option \<Rightarrow> 'v machine \<Rightarrow> 'v machine" where
  "set_data d m = m\<lparr>self := (self m)\<lparr>data := d\<rparr>\<rparr>"

definition onPDFJSParseDataReady :: "'v jsobj option \<Rightarrow> 'v machine \<Rightarrow> 'v machine" where
  "onPDFJSParseDataReady d m =
     (case d of
        None \<Rightarrow> emit PdfParser_dataReady (FormImage (data (self m))) m
      | Some x \<Rightarrow> set_data (Some (spread (data (self m)) x)) m)"

definition onPDFJSParserDataError :: "err \<Rightarrow> 'v machine \<Rightarrow> 'v machine" where
  "onPDFJSParserDataError e m = emit PdfParser_dataError (ParserError e) (set_data None m)"

text \<open>
  The argument of \<open>#startParsingPDF\<close> is \<open>None\<close> when the caller passes nothing (or a falsy
  value): then \<open>buffer || PDFParser.#binBuffer[this.binBufferKey]\<close> reads the cache, and the
  engine receives \<open>undefined\<close> (\<open>None\<close>) when the key is absent. A Buffer is an object and
  so always truthy, also when it is empty.
\<close>

definition startParsingPDF :: "bytes option \<Rightarrow> 'v machine \<Rightarrow> 'v machine" where
  "startParsingPDF buffer m =
     (let m1 = set_data (Some []) m;
          m2 = m1\<lparr>self := (self m1)\<lparr>pdfjsListeners :=
                 pdfjsListeners (self m1) @ [Pdfjs_parseDataReady, Pdfjs_parseDataError]\<rparr>\<rparr>;
          arg = (case buffer of
                   Some b \<Rightarrow> Some b
                 | None \<Rightarrow> obj_get (binBuffer (statics m2)) (key_string (binBufferKey (self m2))))
      in m2\<lparr>trace := trace m2 @ [ParsePDFData arg (password (self m2))]\<rparr>)"

text \<open>
  Lines 93 to 101 of \<open>#processBinaryCache\<close>. Under the guard the index is in range
  (\<open>idx < 10 < length allKeys\<close>), and assigning \<open>null\<close> to a key the object holds and then
  deleting that key comes to deleting it.
\<close>

definition recycle :: "nat \<Rightarrow> bytes jsobj \<Rightarrow> bytes jsobj" where
  "recycle i cache =
     (let allKeys = obj_keys cache in
      if length allKeys > maxBinBufferCount then
        (let idx = i mod maxBinBufferCount; key = allKeys ! idx in obj_delete key cache)
      else cache)"

definition processBinaryCache :: "'v machine \<Rightarrow> bool \<times> 'v machine" where
  "processBinaryCache m =
     (if lodash_has (binBuffer (statics m)) (binBufferKey (self m))
      then (True, startParsingPDF None m)
      else (False, m\<lparr>statics := (statics m)\<lparr>binBuffer :=
                      recycle (inst_id (self m)) (binBuffer (statics m))\<rparr>\<rparr>))"

definition processPDFContent :: "err + bytes \<Rightarrow> 'v machine \<Rightarrow> 'v machine" where
  "processPDFContent res m =
     (case res of
        Inl e \<Rightarrow> emit PdfParser_dataError (Bare e) (set_data None m)
      | Inr d \<Rightarrow>
          startParsingPDF None
            (m\<lparr>statics := (statics m)\<lparr>binBuffer :=
                  obj_set (key_string (binBufferKey (self m))) d (binBuffer (statics m))\<rparr>\<rparr>))"

text \<open>
  \<open>loadPDF\<close> with the outcome of \<open>fs.statSync(pdfFilePath)\<close>: \<open>Inl\<close> when it throws (the
  path is already assigned then), \<open>Inr\<close> the rendered \<open>mtimeMs\<close> otherwise.
  \<open>#processFieldInfoXML\<close> is always false.
\<close>

definition loadPDF :: "string \<Rightarrow> err + string \<Rightarrow> 'v machine \<Rightarrow> 'v machine" where
  "loadPDF pdfFilePath_arg st m =
     (let m1 = m\<lparr>self := (self m)\<lparr>pdfFilePath := Some pdfFilePath_arg\<rparr>\<rparr> in
      case st of
        Inl e \<Rightarrow> m1\<lparr>trace := trace m1 @ [Thrown e]\<rparr>
      | Inr t \<Rightarrow>
          (let m2 = m1\<lparr>self := (self m1)\<lparr>pdfFileMTime := Some t\<rparr>\<rparr>;
               r = processBinaryCache m2
           in if fst r then snd r
              else (snd r)\<lparr>self := (self (snd r))\<lparr>fq := fq (self (snd r)) @ [pdfFilePath_arg]\<rparr>\<rparr>))"

text \<open>
  The queue's worker finishes the head task: \<open>fs.readFile\<close> has run for its path and calls
  back with an error or with the bytes.
\<close>

definition readDone :: "err + bytes \<Rightarrow> 'v machine \<Rightarrow> 'v machine" where
  "readDone res m =
     (case fq (self m) of
        [] \<Rightarrow> m
      | p # rest \<Rightarrow>
          processPDFContent res
            (m\<lparr>self := (self m)\<lparr>fq := rest\<rparr>, trace := trace m @ [ReadFile p]\<rparr>))"

definition parseBuffer :: "bytes option \<Rightarrow> 'v machine \<Rightarrow> 'v machine" where
  "parseBuffer pdfBuffer m = startParsingPDF pdfBuffer m"

text \<open>
  The engine emits a signal: every listener registered for its event runs, in
  registration order.
\<close>

definition listeners_of :: "pdfjs_event \<Rightarrow> 'v machine \<Rightarrow> pdfjs_event list" where
  "listeners_of ev m = filter (\<lambda>l. l = ev) (pdfjsListeners (self m))"

fun pdfjs_emit :: "'v pdfjs_signal \<Rightarrow> 'v machine \<Rightarrow> 'v machine" where
  "pdfjs_emit (ParseDataReady d) m =
     fold (\<lambda>_. onPDFJSParseDataReady d) (listeners_of Pdfjs_parseDataReady m) m"
| "pdfjs_emit (ParseDataError e) m =
     fold (\<lambda>_. onPDFJSParserDataError e) (listeners_of Pdfjs_parseDataError m) m"


section \<open>Runs of one parser, and of a process with several\<close>

text \<open>
  What can happen to one parser: a call of one of its two public entry points, the
  completion of the read at the head of its queue, or a signal of its engine. A run is a
  sequence of these; each runs to completion before the next, as on the event loop.
\<close>

datatype 'v call =
    LoadPDF string "err + string"
  | ReadDone "err + bytes"
  | ParseBuffer "bytes option"
  | Pdfjs "'v pdfjs_signal"

fun step :: "'v call \<Rightarrow> 'v machine \<Rightarrow> 'v machine" where
  "step (LoadPDF f st) m = loadPDF f st m"
| "step (ReadDone res) m = readDone res m"
| "step (ParseBuffer b) m = parseBuffer b m"
| "step (Pdfjs sig) m = pdfjs_emit sig m"

definition run :: "'v call list \<Rightarrow> 'v machine \<Rightarrow> 'v machine" where
  "run cs m = fold step cs m"

text \<open>
  A process holds the statics and the parsers constructed so far, in creation order.
  \<open>New\<close> is \<open>new PDFParser(context, needRawText, password)\<close>; \<open>On i c\<close> lets \<open>c\<close> happen to the
  parser created \<open>i\<close>-th, which sees and changes the statics all parsers share.
\<close>

record 'v process =
  globals :: shared
  instances :: "'v parser list"
  effects :: "'v effect list"

datatype 'v action = New "string option" | On nat "'v call"

fun exec :: "'v action \<Rightarrow> 'v process \<Rightarrow> 'v process" where
  "exec (New pw) w =
     (let r = construct pw (globals w)
      in w\<lparr>globals := snd r, instances := instances w @ [fst r]\<rparr>)"
| "exec (On i c) w =
     (if i < length (instances w) then
        (let m = step c \<lparr>statics = globals w, self = instances w ! i, trace = effects w\<rparr>
         in \<lparr>globals = statics m, instances = (instances w)[i := self m], effects = trace m\<rparr>)
      else w)"

definition process_start :: "'v process" where
  "process_start = \<lparr>globals = \<lparr>nextId = 0, binBuffer = []\<rparr>, instances = [], effects = []\<rparr>"

definition execs :: "'v action list \<Rightarrow> 'v process \<Rightarrow> 'v process" where
  "execs as w = fold exec as w"

definition is_New :: "'v action \<Rightarrow> bool" where
  "is_New a = (case a of New _ \<Rightarrow> True | On _ _ \<Rightarrow> False)"

text \<open>What a run has added to the trace, and the parser's own signals among it.\<close>

definition since :: "'v machine \<Rightarrow> 'v machine \<Rightarrow> 'v effect list" where
  "since m m' = drop (length (trace m)) (trace m')"

definition is_Emit :: "'v effect \<Rightarrow> bool" where
  "is_Emit x = (case x of Emit _ _ \<Rightarrow> True | _ \<Rightarrow> False)"

definition is_ReadFile :: "'v effect \<Rightarrow> bool" where
  "is_ReadFile x = (case x of ReadFile _ \<Rightarrow> True | _ \<Rightarrow> False)"

definition signals :: "'v machine \<Rightarrow> 'v machine \<Rightarrow> 'v effect list" where
  "signals m m' = filter is_Emit (since m m')"

definition disk_reads :: "'v machine \<Rightarrow> 'v machine \<Rightarrow> 'v effect list" where
  "disk_reads m m' = filter is_ReadFile (since m m')"

definition is_ParsePDFData :: "'v effect \<Rightarrow> bool" where
  "is_ParsePDFData x = (case x of ParsePDFData _ _ \<Rightarrow> True | _ \<Rightarrow> False)"

text \<open>The sessions started: every call of \<open>#startParsingPDF\<close> hands bytes to the engine once.\<close>

definition sessions :: "'v machine \<Rightarrow> 'v machine \<Rightarrow> nat" where
  "sessions m m' = length (filter is_ParsePDFData (since m m'))"

text \<open>The first parser constructed in a new process, before any of its methods is called.\<close>

definition first_parser :: "string option \<Rightarrow> 'v machine" where
  "first_parser pw =
     (let r = construct pw \<lparr>nextId = 0, binBuffer = []\<rparr>
      in \<lparr>statics = snd r, self = fst r, trace = []\<rparr>)"

text \<open>A cache of buffers read from the given paths, all with modification time 1.\<close>

definition cache_of :: "string list \<Rightarrow> bytes jsobj" where
  "cache_of paths = map (\<lambda>f. (f @ ''1'', [])) paths"



text \<open>
  Each path is loaded (modification time 1) and its read completes, with an empty buffer,
  before the next load starts.
\<close>

definition loads_in_turn :: "string list \<Rightarrow> 'v call list" where
  "loads_in_turn paths = concat (map (\<lambda>f. [LoadPDF f (Inr ''1''), ReadDone (Inr [])]) paths)"


text \<open>
  The steps that call \<open>#startParsingPDF\<close>: \<open>parseBuffer\<close>, a \<open>loadPDF\<close> for which
  \<open>#processBinaryCache\<close> reports a hit, and the successful completion of a queued read.
\<close>

definition starts_session :: "'v call \<Rightarrow> 'v machine \<Rightarrow> bool" where
  "starts_session c m =
     (case c of
        LoadPDF f st \<Rightarrow>
          (case st of
             Inl e \<Rightarrow> False
           | Inr t \<Rightarrow> lodash_has (binBuffer (statics m)) (StrKey (f @ t)))
      | ReadDone res \<Rightarrow>
          (case res of
             Inl e \<Rightarrow> False
           | Inr d \<Rightarrow> (case fq (self m) of [] \<Rightarrow> False | _ # _ \<Rightarrow> True))
      | ParseBuffer b \<Rightarrow> True
      | Pdfjs sig \<Rightarrow> False)"

text \<open>The read tasks a step appends to the queue of the parser.\<close>

definition reads_queued :: "'v call \<Rightarrow> 'v machine \<Rightarrow> string list" where
  "reads_queued c m = drop (length (fq (self m))) (fq (self (step c m)))"


section \<open>Predicates of the proofs\<close>

text \<open>
  In every process the parser created \<open>k\<close>-th (counting from 0) has id \<open>k\<close>, and the counter
  holds the number of parsers created.
\<close>

definition ids_ok :: "'v process \<Rightarrow> bool" where
  "ids_ok w = (nextId (globals w) = length (instances w) \<and>
               map inst_id (instances w) = [0 ..< length (instances w)])"

text \<open>An object has each key once; \<open>null\<close> has none.\<close>

definition wf_data :: "'v jsobj option \<Rightarrow> bool" where
  "wf_data d = (case d of None \<Rightarrow> True | Some r \<Rightarrow> distinct (map fst r))"

text \<open>What a key holds once \<open>p\<close> has been merged over \<open>d\<close>: the value in \<open>p\<close> wins.\<close>

definition overridden :: "'v jsobj option \<Rightarrow> 'v jsobj \<Rightarrow> string \<Rightarrow> 'v option" where
  "overridden d p k =
     (case obj_get p k of
        Some v \<Rightarrow> Some v
      | None \<Rightarrow> (case d of None \<Rightarrow> None | Some r \<Rightarrow> obj_get r k))"


section \<open>Identity allocation\<close>

lemma fold_handler_inv:
  assumes "\<And>m. P (h m) = P m"
  shows "P (fold (\<lambda>_. h) xs m) = P m"
  using assms by (induction xs arbitrary: m) simp_all

lemma startParsingPDF_frame:
  "statics (startParsingPDF b m) = statics m"
  "inst_id (self (startParsingPDF b m)) = inst_id (self m)"
  "fq (self (startParsingPDF b m)) = fq (self m)"
  "pdfFilePath (self (startParsingPDF b m)) = pdfFilePath (self m)"
  "pdfFileMTime (self (startParsingPDF b m)) = pdfFileMTime (self m)"
  "password (self (startParsingPDF b m)) = password (self m)"
  by (simp_all add: startParsingPDF_def set_data_def Let_def)

lemma handler_frame:
  "statics (onPDFJSParseDataReady d m) = statics m"
  "inst_id (self (onPDFJSParseDataReady d m)) = inst_id (self m)"
  "statics (onPDFJSParserDataError e m) = statics m"
  "inst_id (self (onPDFJSParserDataError e m)) = inst_id (self m)"
  by (simp_all add: onPDFJSParseDataReady_def onPDFJSParserDataError_def emit_def set_data_def
      split: option.split)

lemma pdfjs_emit_nextId: "nextId (statics (pdfjs_emit sig m)) = nextId (statics m)"
  by (cases sig) (simp_all add: fold_handler_inv [where P = "\<lambda>m. nextId (statics m)"] handler_frame)

lemma pdfjs_emit_inst_id: "inst_id (self (pdfjs_emit sig m)) = inst_id (self m)"
  by (cases sig) (simp_all add: fold_handler_inv [where P = "\<lambda>m. inst_id (self m)"] handler_frame)

lemma processPDFContent_ids:
  "nextId (statics (processPDFContent res m)) = nextId (statics m)"
  "inst_id (self (processPDFContent res m)) = inst_id (self m)"
  by (simp_all add: processPDFContent_def emit_def set_data_def startParsingPDF_frame split: sum.split)

lemma loadPDF_ids:
  "nextId (statics (loadPDF f st m)) = nextId (statics m)"
  "inst_id (self (loadPDF f st m)) = inst_id (self m)"
  by (simp_all add: loadPDF_def processBinaryCache_def Let_def startParsingPDF_frame split: sum.split)

lemma readDone_ids:
  "nextId (statics (readDone res m)) = nextId (statics m)"
  "inst_id (self (readDone res m)) = inst_id (self m)"
  by (simp_all add: readDone_def processPDFContent_ids split: list.split)

lemma step_nextId: "nextId (statics (step c m)) = nextId (statics m)"
  by (cases c) (simp_all add: loadPDF_ids readDone_ids parseBuffer_def startParsingPDF_frame pdfjs_emit_nextId)

lemma step_inst_id: "inst_id (self (step c m)) = inst_id (self m)"
  by (cases c) (simp_all add: loadPDF_ids readDone_ids parseBuffer_def startParsingPDF_frame pdfjs_emit_inst_id)

lemma exec_ids_ok: "ids_ok w \<Longrightarrow> ids_ok (exec a w)"
proof (cases a)
  case (New pw)
  assume "ids_ok w"
  then show ?thesis using New by (simp add: ids_ok_def construct_def Let_def)
next
  case (On i c)
  assume ok: "ids_ok w"
  show ?thesis
  proof (cases "i < length (instances w)")
    case False
    then show ?thesis using ok On by simp
  next
    case True
    let ?m = "\<lparr>statics = globals w, self = instances w ! i, trace = effects w\<rparr>"
    have "inst_id (self (step c ?m)) = inst_id (instances w ! i)"
      by (simp add: step_inst_id)
    then have "map inst_id ((instances w)[i := self (step c ?m)]) = map inst_id (instances w)"
      using True by (simp add: map_update list_update_same_conv)
    then show ?thesis using ok On True by (simp add: ids_ok_def Let_def step_nextId)
  qed
qed

lemma exec_count:
  "length (instances (exec a w)) = length (instances w) + (if is_New a then 1 else 0)"
  by (cases a) (simp_all add: is_New_def Let_def)

lemma execs_ids_ok: "ids_ok w \<Longrightarrow> ids_ok (execs as w)"
  unfolding execs_def by (induction as arbitrary: w) (simp_all add: exec_ids_ok)

lemma execs_count:
  "length (instances (execs as w)) = length (instances w) + length (filter is_New as)"
  unfolding execs_def by (induction as arbitrary: w) (simp_all add: exec_count)

text \<open>
  Claim C9. However the constructions of a process are interleaved with calls on the
  parsers already made, the parsers carry the ids 0, 1, 2, ... in creation order, as many
  as were constructed: the ids are distinct, strictly increasing, and start at 0.
\<close>

theorem ids_distinct_increasing_from_zero:
  "map inst_id (instances (execs as process_start)) = [0 ..< length (filter is_New as)] \<and>
   distinct (map inst_id (instances (execs as process_start))) \<and>
   sorted_wrt (<) (map inst_id (instances (execs as process_start)))"
proof -
  have "ids_ok (process_start :: 'a process)" by (simp add: ids_ok_def process_start_def)
  then have "ids_ok (execs as (process_start :: 'a process))" by (rule execs_ids_ok)
  moreover have "length (instances (execs as (process_start :: 'a process))) = length (filter is_New as)"
    by (simp add: execs_count process_start_def)
  ultimately have eq: "map inst_id (instances (execs as (process_start :: 'a process))) = [0 ..< length (filter is_New as)]"
    by (simp add: ids_ok_def)
  show ?thesis using eq by simp
qed

section \<open>Objects\<close>

lemma obj_has_iff: "obj_has obj k \<longleftrightarrow> obj_get obj k \<noteq> None"
  by (simp add: obj_has_def obj_get_def map_of_eq_None_iff)

lemma in_keys: "(k, v) \<in> set obj \<Longrightarrow> k \<in> fst ` set obj"
  by force

lemma set_obj_insert: "set (obj_insert k v obj) = insert (k, v) (set obj)"
  by (induction obj) (auto split: if_splits)

lemma keys_obj_insert: "set (map fst (obj_insert k v obj)) = insert k (set (map fst obj))"
  by (simp add: set_obj_insert)

lemma distinct_obj_insert:
  "k \<notin> set (map fst obj) \<Longrightarrow> distinct (map fst obj) \<Longrightarrow> distinct (map fst (obj_insert k v obj))"
proof (induction obj)
  case Nil
  then show ?case by simp
next
  case (Cons x obj)
  obtain k' v' where x: "x = (k', v')" by (cases x)
  have "k' \<notin> set (map fst (obj_insert k v obj))"
    using Cons.prems unfolding keys_obj_insert x by auto
  then show ?case using Cons x by auto
qed

lemma map_of_obj_insert:
  "k \<notin> set (map fst obj) \<Longrightarrow>
   map_of (obj_insert k v obj) k' = (if k' = k then Some v else map_of obj k')"
  by (induction obj) auto

lemma map_of_replace:
  "map_of (map (\<lambda>kv. if fst kv = k then (k, v) else kv) obj) k' =
   (if k' = k \<and> k \<in> set (map fst obj) then Some v else map_of obj k')"
  by (induction obj) (auto dest: in_keys)

lemma keys_replace: "map (fst \<circ> (\<lambda>kv. if fst kv = k then (k, v) else kv)) obj = map fst obj"
  by (induction obj) auto

lemma map_of_obj_set: "map_of (obj_set k v obj) k' = (if k' = k then Some v else map_of obj k')"
  by (simp add: obj_set_def obj_has_def map_of_replace map_of_obj_insert map_of_eq_None_iff)

lemma distinct_obj_set: "distinct (map fst obj) \<Longrightarrow> distinct (map fst (obj_set k v obj))"
  by (simp add: obj_set_def obj_has_def keys_replace distinct_obj_insert)

lemma obj_get_obj_set: "obj_get (obj_set k v obj) k = Some v"
  by (simp add: obj_get_def map_of_obj_set)

lemma obj_has_obj_set: "obj_has (obj_set k v obj) k"
  by (simp add: obj_has_iff obj_get_obj_set)

text \<open>A key the cache holds is found by \<open>_.has\<close>, whatever its shape.\<close>

lemma own_key_has: "obj_has cache s \<Longrightarrow> lodash_has cache (StrKey s)"
  by (simp add: lodash_has_def isKey_def)

lemma distinct_fold_set:
  "distinct (map fst acc) \<Longrightarrow> distinct (map fst (fold (\<lambda>kv. obj_set (fst kv) (snd kv)) es acc))"
  by (induction es arbitrary: acc) (simp_all add: distinct_obj_set)

lemma map_of_fold_set:
  "distinct (map fst es) \<Longrightarrow>
   map_of (fold (\<lambda>kv. obj_set (fst kv) (snd kv)) es acc) k =
     (case map_of es k of Some v \<Rightarrow> Some v | None \<Rightarrow> map_of acc k)"
proof (induction es arbitrary: acc)
  case Nil
  then show ?case by simp
next
  case (Cons x es)
  obtain k0 v0 where x: "x = (k0, v0)" by (cases x)
  have none: "map_of es k0 = None" using Cons.prems x by (simp add: map_of_eq_None_iff)
  have "map_of (fold (\<lambda>kv. obj_set (fst kv) (snd kv)) es (obj_set k0 v0 acc)) k =
        (case map_of es k of Some v \<Rightarrow> Some v | None \<Rightarrow> map_of (obj_set k0 v0 acc) k)"
    using Cons by simp
  then show ?case using none by (simp add: x map_of_obj_set split: option.split)
qed

lemma distinct_spread: "distinct (map fst (spread d p))"
  by (simp add: spread_def distinct_fold_set)

lemma obj_get_spread:
  assumes "wf_data d" and "distinct (map fst p)"
  shows "obj_get (spread d p) k = overridden d p k"
proof (cases d)
  case None
  then show ?thesis using assms(2)
    by (simp add: spread_def obj_get_def overridden_def map_of_fold_set split: option.split)
next
  case (Some r)
  then have "distinct (map fst r)" using assms(1) by (simp add: wf_data_def)
  then show ?thesis using assms(2) Some
    by (simp add: spread_def obj_get_def overridden_def map_of_fold_set split: option.split)
qed

lemma overridden_idem: "overridden (Some r) p k = overridden d p k"
  if "obj_get r k = overridden d p k"
  using that by (simp add: overridden_def split: option.split)


section \<open>The recycling step of the cache\<close>

lemma filter_neq_nth:
  "distinct (map fst xs) \<Longrightarrow> i < length xs \<Longrightarrow>
   filter (\<lambda>kv. fst kv \<noteq> map fst xs ! i) xs = take i xs @ drop (Suc i) xs"
proof (induction xs arbitrary: i)
  case Nil
  then show ?case by simp
next
  case (Cons x xs)
  show ?case
  proof (cases i)
    case 0
    have "fst x \<notin> set (map fst xs)" using Cons.prems(1) by simp
    then have "\<forall>kv\<in>set xs. fst kv \<noteq> fst x" by (metis image_eqI set_map)
    then have "filter (\<lambda>kv. fst kv \<noteq> fst x) xs = xs" by (simp add: filter_id_conv)
    then show ?thesis using 0 by simp
  next
    case (Suc j)
    have j: "j < length xs" using Cons.prems(2) Suc by simp
    then have "map fst xs ! j \<in> set (map fst xs)" by (metis length_map nth_mem)
    moreover have "fst x \<notin> set (map fst xs)" using Cons.prems(1) by simp
    ultimately have "fst x \<noteq> map fst xs ! j" by metis
    then show ?thesis using Suc Cons.IH [of j] Cons.prems(1) j by simp
  qed
qed

lemma set_without_nth:
  assumes d: "distinct ks" and i: "i < length ks"
  shows "set (take i ks @ drop (Suc i) ks) = set ks - {ks ! i}"
proof -
  have e: "ks = take i ks @ ks ! i # drop (Suc i) ks" using i by (rule id_take_nth_drop)
  have "distinct (take i ks @ ks ! i # drop (Suc i) ks)" using d e by metis
  then have out: "ks ! i \<notin> set (take i ks)" "ks ! i \<notin> set (drop (Suc i) ks)" by auto
  have "set ks = set (take i ks @ ks ! i # drop (Suc i) ks)" using e by metis
  then have "set ks = insert (ks ! i) (set (take i ks) \<union> set (drop (Suc i) ks))" by simp
  then show ?thesis using out by auto
qed

text \<open>
  Claim C2. When the cache holds more than \<open>maxBinBufferCount\<close> keys, the recycling step
  of \<open>#processBinaryCache\<close> removes exactly one entry: the one whose key stands at index
  \<open>id mod maxBinBufferCount\<close> of the cache's key list; every other entry stays, in order.
\<close>

theorem recycle_removes_indexed_key:
  assumes "distinct (obj_keys cache)" and "length (obj_keys cache) > maxBinBufferCount"
  shows "recycle i cache =
           take (i mod maxBinBufferCount) cache @ drop (Suc (i mod maxBinBufferCount)) cache \<and>
         obj_keys (recycle i cache) =
           take (i mod maxBinBufferCount) (obj_keys cache) @
           drop (Suc (i mod maxBinBufferCount)) (obj_keys cache) \<and>
         Suc (length (obj_keys (recycle i cache))) = length (obj_keys cache) \<and>
         set (obj_keys (recycle i cache)) =
           set (obj_keys cache) - {obj_keys cache ! (i mod maxBinBufferCount)}"
proof -
  let ?idx = "i mod maxBinBufferCount"
  have idx: "?idx < length cache"
    using assms(2) by (simp add: obj_keys_def maxBinBufferCount_def)
  have r: "recycle i cache = take ?idx cache @ drop (Suc ?idx) cache"
    using assms filter_neq_nth [of cache ?idx] idx
    by (simp add: recycle_def obj_delete_def obj_keys_def Let_def)
  have k: "obj_keys (recycle i cache) = take ?idx (obj_keys cache) @ drop (Suc ?idx) (obj_keys cache)"
    unfolding r by (simp add: obj_keys_def take_map drop_map)
  have l: "Suc (length (obj_keys (recycle i cache))) = length (obj_keys cache)"
    unfolding r using idx by (simp add: obj_keys_def)
  have "set (obj_keys (recycle i cache)) = set (obj_keys cache) - {obj_keys cache ! ?idx}"
    unfolding k using assms(1) idx by (intro set_without_nth) (simp_all add: obj_keys_def)
  with r k l show ?thesis by blast
qed


theorem recycle_removes_indexed_key_witness:
  "distinct (obj_keys (cache_of [''a'', ''b'', ''c'', ''d'', ''e'', ''f'', ''g'', ''h'', ''i'', ''j'', ''k''])) \<and>
   maxBinBufferCount < length (obj_keys (cache_of [''a'', ''b'', ''c'', ''d'', ''e'', ''f'', ''g'', ''h'', ''i'', ''j'', ''k''])) \<and>
   obj_keys (recycle 13 (cache_of [''a'', ''b'', ''c'', ''d'', ''e'', ''f'', ''g'', ''h'', ''i'', ''j'', ''k''])) =
     [''a1'', ''b1'', ''c1'', ''e1'', ''f1'', ''g1'', ''h1'', ''i1'', ''j1'', ''k1'']"
proof -
  let ?c = "cache_of [''a'', ''b'', ''c'', ''d'', ''e'', ''f'', ''g'', ''h'', ''i'', ''j'', ''k'']"
  have d: "distinct (obj_keys ?c)" by (simp add: cache_of_def obj_keys_def)
  have l: "maxBinBufferCount < length (obj_keys ?c)"
    by (simp add: cache_of_def obj_keys_def maxBinBufferCount_def)
  have "obj_keys (recycle 13 ?c) =
          take (13 mod maxBinBufferCount) (obj_keys ?c) @
          drop (Suc (13 mod maxBinBufferCount)) (obj_keys ?c)"
    using recycle_removes_indexed_key [OF d l, of 13] by blast
  also have "\<dots> = [''a1'', ''b1'', ''c1'', ''e1'', ''f1'', ''g1'', ''h1'', ''i1'', ''j1'', ''k1'']"
    by (simp add: cache_of_def obj_keys_def maxBinBufferCount_def)
  finally show ?thesis using d l by blast
qed

text \<open>
  The step is reached only when the key of the load is not cached: on a hit
  \<open>#processBinaryCache\<close> returns before it, whatever the size of the cache.
\<close>

lemma processBinaryCache_miss:
  "\<not> lodash_has (binBuffer (statics m)) (binBufferKey (self m)) \<Longrightarrow>
   fst (processBinaryCache m) = False \<and>
   binBuffer (statics (snd (processBinaryCache m))) =
     recycle (inst_id (self m)) (binBuffer (statics m))"
  by (simp add: processBinaryCache_def)

lemma processBinaryCache_hit:
  "lodash_has (binBuffer (statics m)) (binBufferKey (self m)) \<Longrightarrow>
   fst (processBinaryCache m) = True \<and>
   binBuffer (statics (snd (processBinaryCache m))) = binBuffer (statics m)"
  by (simp add: processBinaryCache_def startParsingPDF_frame)


section \<open>What each method does to the parser and to the trace\<close>

lemma binBufferKey_update:
  "binBufferKey (p\<lparr>fq := q\<rparr>) = binBufferKey p"
  "binBufferKey (p\<lparr>data := d\<rparr>) = binBufferKey p"
  "binBufferKey (p\<lparr>pdfjsListeners := ls\<rparr>) = binBufferKey p"
  "binBufferKey (p\<lparr>pdfFilePath := Some f, pdfFileMTime := Some t\<rparr>) = StrKey (f @ t)"
  by (simp_all add: binBufferKey_def split: option.split)

lemma startParsingPDF_trace:
  "trace (startParsingPDF b m) =
     trace m @ [ParsePDFData
       (case b of Some x \<Rightarrow> Some x
        | None \<Rightarrow> obj_get (binBuffer (statics m)) (key_string (binBufferKey (self m))))
       (password (self m))]"
  by (simp add: startParsingPDF_def set_data_def Let_def binBufferKey_def split: option.split)

lemma startParsingPDF_listeners:
  "pdfjsListeners (self (startParsingPDF b m)) =
     pdfjsListeners (self m) @ [Pdfjs_parseDataReady, Pdfjs_parseDataError]"
  by (simp add: startParsingPDF_def set_data_def Let_def)

lemma startParsingPDF_data: "data (self (startParsingPDF b m)) = Some []"
  by (simp add: startParsingPDF_def set_data_def Let_def)

lemma onReady_None:
  "onPDFJSParseDataReady None m = m\<lparr>trace := trace m @ [Emit PdfParser_dataReady (FormImage (data (self m)))]\<rparr>"
  by (simp add: onPDFJSParseDataReady_def emit_def)

lemma onReady_Some:
  "onPDFJSParseDataReady (Some p) m = m\<lparr>self := (self m)\<lparr>data := Some (spread (data (self m)) p)\<rparr>\<rparr>"
  by (simp add: onPDFJSParseDataReady_def set_data_def)

lemma onError_eq:
  "onPDFJSParserDataError e m =
     m\<lparr>self := (self m)\<lparr>data := None\<rparr>, trace := trace m @ [Emit PdfParser_dataError (ParserError e)]\<rparr>"
  by (simp add: onPDFJSParserDataError_def emit_def set_data_def)

lemma fold_onReady_None:
  "fold (\<lambda>_. onPDFJSParseDataReady None) xs m =
     m\<lparr>trace := trace m @ replicate (length xs) (Emit PdfParser_dataReady (FormImage (data (self m))))\<rparr>"
  by (induction xs arbitrary: m) (simp_all add: onReady_None replicate_app_Cons_same)

lemma fold_onError:
  "fold (\<lambda>_. onPDFJSParserDataError e) xs m =
     (if xs = [] then m
      else m\<lparr>self := (self m)\<lparr>data := None\<rparr>,
             trace := trace m @ replicate (length xs) (Emit PdfParser_dataError (ParserError e))\<rparr>)"
proof (induction xs arbitrary: m)
  case Nil
  then show ?case by simp
next
  case (Cons x xs)
  have "fold (\<lambda>_. onPDFJSParserDataError e) (x # xs) m =
        fold (\<lambda>_. onPDFJSParserDataError e) xs (onPDFJSParserDataError e m)"
    by simp
  also have "\<dots> =
     (if xs = [] then onPDFJSParserDataError e m
      else (onPDFJSParserDataError e m)\<lparr>self := (self (onPDFJSParserDataError e m))\<lparr>data := None\<rparr>,
             trace := trace (onPDFJSParserDataError e m) @
               replicate (length xs) (Emit PdfParser_dataError (ParserError e))\<rparr>)"
    by (rule Cons.IH)
  also have "\<dots> =
     m\<lparr>self := (self m)\<lparr>data := None\<rparr>,
       trace := trace m @ replicate (length (x # xs)) (Emit PdfParser_dataError (ParserError e))\<rparr>"
    by (simp add: onError_eq replicate_app_Cons_same)
  finally show ?case by simp
qed

lemma fold_onReady_Some_frame:
  "trace (fold (\<lambda>_. onPDFJSParseDataReady (Some p)) xs m) = trace m"
  "statics (fold (\<lambda>_. onPDFJSParseDataReady (Some p)) xs m) = statics m"
  "pdfjsListeners (self (fold (\<lambda>_. onPDFJSParseDataReady (Some p)) xs m)) = pdfjsListeners (self m)"
  "fq (self (fold (\<lambda>_. onPDFJSParseDataReady (Some p)) xs m)) = fq (self m)"
  by (induction xs arbitrary: m) (simp_all add: onReady_Some)

lemma pdfjs_emit_trace:
  "trace (pdfjs_emit (ParseDataReady None) m) =
     trace m @ replicate (length (listeners_of Pdfjs_parseDataReady m))
                 (Emit PdfParser_dataReady (FormImage (data (self m))))"
  "trace (pdfjs_emit (ParseDataReady (Some p)) m) = trace m"
  "trace (pdfjs_emit (ParseDataError e) m) =
     trace m @ replicate (length (listeners_of Pdfjs_parseDataError m))
                 (Emit PdfParser_dataError (ParserError e))"
  by (simp_all add: fold_onReady_None fold_onError fold_onReady_Some_frame)

lemma pdfjs_emit_listeners: "pdfjsListeners (self (pdfjs_emit sig m)) = pdfjsListeners (self m)"
proof (cases sig)
  case (ParseDataReady d)
  then show ?thesis
    by (cases d) (simp_all add: fold_onReady_None fold_onReady_Some_frame)
next
  case (ParseDataError e)
  then show ?thesis by (simp add: fold_onError)
qed

lemma pdfjs_emit_error_data:
  "listeners_of Pdfjs_parseDataError m \<noteq> [] \<Longrightarrow> data (self (pdfjs_emit (ParseDataError e) m)) = None"
  by (simp add: fold_onError)

lemma loadPDF_throw:
  "loadPDF f (Inl e) m = m\<lparr>self := (self m)\<lparr>pdfFilePath := Some f\<rparr>, trace := trace m @ [Thrown e]\<rparr>"
  by (simp add: loadPDF_def Let_def)

lemma loadPDF_hit:
  "lodash_has (binBuffer (statics m)) (StrKey (f @ t)) \<Longrightarrow>
   loadPDF f (Inr t) m =
     startParsingPDF None (m\<lparr>self := (self m)\<lparr>pdfFilePath := Some f, pdfFileMTime := Some t\<rparr>\<rparr>)"
  by (simp add: loadPDF_def Let_def processBinaryCache_def binBufferKey_def)

lemma loadPDF_miss:
  "\<not> lodash_has (binBuffer (statics m)) (StrKey (f @ t)) \<Longrightarrow>
   loadPDF f (Inr t) m =
     m\<lparr>statics := (statics m)\<lparr>binBuffer := recycle (inst_id (self m)) (binBuffer (statics m))\<rparr>,
       self := (self m)\<lparr>pdfFilePath := Some f, pdfFileMTime := Some t, fq := fq (self m) @ [f]\<rparr>\<rparr>"
  by (simp add: loadPDF_def Let_def processBinaryCache_def binBufferKey_def)

lemma readDone_idle: "fq (self m) = [] \<Longrightarrow> readDone res m = m"
  by (simp add: readDone_def)

lemma readDone_error:
  "fq (self m) = f # rest \<Longrightarrow>
   readDone (Inl e) m =
     m\<lparr>self := (self m)\<lparr>fq := rest, data := None\<rparr>,
       trace := trace m @ [ReadFile f, Emit PdfParser_dataError (Bare e)]\<rparr>"
  by (simp add: readDone_def processPDFContent_def emit_def set_data_def)

lemma readDone_bytes:
  "fq (self m) = f # rest \<Longrightarrow>
   readDone (Inr d) m =
     startParsingPDF None
       (m\<lparr>self := (self m)\<lparr>fq := rest\<rparr>,
          trace := trace m @ [ReadFile f],
          statics := (statics m)\<lparr>binBuffer :=
             obj_set (key_string (binBufferKey (self m))) d (binBuffer (statics m))\<rparr>\<rparr>)"
  by (simp add: readDone_def processPDFContent_def binBufferKey_update)

lemma since_append: "trace m' = trace m @ out \<Longrightarrow> since m m' = out"
  by (simp add: since_def)

text \<open>
  The cache is an object, so it holds each key once; every step keeps it so.
\<close>

lemma recycle_distinct: "distinct (obj_keys c) \<Longrightarrow> distinct (obj_keys (recycle i c))"
  by (simp add: recycle_def obj_delete_def obj_keys_def Let_def distinct_map_filter)

lemma step_cache_distinct:
  assumes "distinct (obj_keys (binBuffer (statics m)))"
  shows "distinct (obj_keys (binBuffer (statics (step c m))))"
proof (cases c)
  case (LoadPDF f st)
  show ?thesis
  proof (cases st)
    case (Inl e)
    then show ?thesis using assms LoadPDF by (simp add: loadPDF_throw)
  next
    case (Inr t)
    then show ?thesis using assms LoadPDF
      by (cases "lodash_has (binBuffer (statics m)) (StrKey (f @ t))")
         (simp_all add: loadPDF_hit loadPDF_miss startParsingPDF_frame recycle_distinct)
  qed
next
  case (ReadDone res)
  show ?thesis
  proof (cases "fq (self m)")
    case Nil
    then show ?thesis using assms ReadDone by (simp add: readDone_idle)
  next
    case (Cons f rest)
    have "distinct (obj_keys (obj_set k d (binBuffer (statics m))))" for k d
      using assms distinct_obj_set [of "binBuffer (statics m)" k d] by (simp add: obj_keys_def)
    then show ?thesis using assms ReadDone Cons
      by (cases res) (simp_all add: readDone_error readDone_bytes startParsingPDF_frame)
  qed
next
  case (ParseBuffer b)
  then show ?thesis using assms by (simp add: parseBuffer_def startParsingPDF_frame)
next
  case (Pdfjs sig)
  have "statics (pdfjs_emit sig m) = statics m"
    by (cases sig) (simp_all add: fold_handler_inv [where P = statics] handler_frame)
  then show ?thesis using assms Pdfjs by simp
qed

text \<open>
  The definitions a concrete run is evaluated with.
\<close>

lemmas model_defs =
  run_def first_parser_def construct_def loadPDF_def readDone_def parseBuffer_def
  processBinaryCache_def processPDFContent_def startParsingPDF_def recycle_def
  onPDFJSParseDataReady_def onPDFJSParserDataError_def emit_def set_data_def
  listeners_of_def binBufferKey_def maxBinBufferCount_def
  obj_has_def obj_get_def obj_keys_def obj_delete_def obj_set_def spread_def
  lodash_has_def isKey_def reIsPlainProp_def word_char_def quote_char_def line_end_def
  opens_quoted_def stringToPath_def match_at_def seg_char_def at_empty_segment_def
  bracket_token_def number_token_def buffer_hasOwn_def decimal_val_def digit_val_def
  is_array_index_def is_digit_def
  since_def signals_def disk_reads_def sessions_def is_Emit_def is_ReadFile_def is_ParsePDFData_def
  Let_def


section \<open>Parsing a buffer directly\<close>

text \<open>
  Claim C8. For every Buffer \<open>b\<close>, \<open>parseBuffer(b)\<close> starts a session on exactly these bytes:
  the engine is called with \<open>b\<close> and nothing else is done to the outside, the statics
  (the cache among them), the path, the modification time and the read queue are as
  before, and the outcome is the same whatever the cache holds. (With no buffer, or a falsy
  value in its place, \<open>#startParsingPDF\<close> would read the cache at the current key.)
\<close>

theorem parseBuffer_bypasses_cache:
  "statics (parseBuffer (Some b) m) = statics m \<and>
   pdfFilePath (self (parseBuffer (Some b) m)) = pdfFilePath (self m) \<and>
   pdfFileMTime (self (parseBuffer (Some b) m)) = pdfFileMTime (self m) \<and>
   fq (self (parseBuffer (Some b) m)) = fq (self m) \<and>
   data (self (parseBuffer (Some b) m)) = Some [] \<and>
   since m (parseBuffer (Some b) m) = [ParsePDFData (Some b) (password (self m))] \<and>
   parseBuffer (Some b) (m\<lparr>statics := s\<rparr>) = (parseBuffer (Some b) m)\<lparr>statics := s\<rparr>"
proof -
  have "since m (parseBuffer (Some b) m) = [ParsePDFData (Some b) (password (self m))]"
    by (rule since_append) (simp add: parseBuffer_def startParsingPDF_trace)
  moreover have "parseBuffer (Some b) (m\<lparr>statics := s\<rparr>) = (parseBuffer (Some b) m)\<lparr>statics := s\<rparr>"
    by (simp add: parseBuffer_def startParsingPDF_def set_data_def Let_def)
  ultimately show ?thesis
    by (simp add: parseBuffer_def startParsingPDF_frame startParsingPDF_data)
qed


section \<open>Listeners on the engine\<close>

lemma step_out:
  "\<exists>out. trace (step c m) = trace m @ out \<and>
     pdfjsListeners (self (step c m)) =
       pdfjsListeners (self m) @
       concat (replicate (length (filter is_ParsePDFData out)) [Pdfjs_parseDataReady, Pdfjs_parseDataError])"
proof (cases c)
  case (LoadPDF f st)
  show ?thesis
  proof (cases st)
    case (Inl e)
    then show ?thesis using LoadPDF by (simp add: loadPDF_throw is_ParsePDFData_def)
  next
    case (Inr t)
    show ?thesis
    proof (cases "lodash_has (binBuffer (statics m)) (StrKey (f @ t))")
      case True
      then show ?thesis using LoadPDF Inr
        by (simp add: loadPDF_hit startParsingPDF_trace startParsingPDF_listeners is_ParsePDFData_def)
    next
      case False
      then show ?thesis using LoadPDF Inr by (simp add: loadPDF_miss)
    qed
  qed
next
  case (ReadDone res)
  show ?thesis
  proof (cases "fq (self m)")
    case Nil
    then show ?thesis using ReadDone by (simp add: readDone_idle)
  next
    case (Cons f rest)
    then show ?thesis using ReadDone
      by (cases res)
         (simp_all add: readDone_error readDone_bytes startParsingPDF_trace
            startParsingPDF_listeners is_ParsePDFData_def)
  qed
next
  case (ParseBuffer b)
  then show ?thesis
    by (simp add: parseBuffer_def startParsingPDF_trace startParsingPDF_listeners is_ParsePDFData_def)
next
  case (Pdfjs sig)
  show ?thesis
  proof (cases sig)
    case (ParseDataReady d)
    then show ?thesis using Pdfjs
      by (cases d) (simp_all add: pdfjs_emit_trace pdfjs_emit_listeners is_ParsePDFData_def
          del: pdfjs_emit.simps)
  next
    case (ParseDataError e)
    then show ?thesis using Pdfjs
      by (simp add: pdfjs_emit_trace pdfjs_emit_listeners is_ParsePDFData_def del: pdfjs_emit.simps)
  qed
qed

lemma run_out:
  "\<exists>out. trace (run cs m) = trace m @ out \<and>
     pdfjsListeners (self (run cs m)) =
       pdfjsListeners (self m) @
       concat (replicate (length (filter is_ParsePDFData out)) [Pdfjs_parseDataReady, Pdfjs_parseDataError])"
proof (induction cs arbitrary: m)
  case Nil
  then show ?case by (simp add: run_def)
next
  case (Cons c cs)
  obtain o1 where o1: "trace (step c m) = trace m @ o1"
    "pdfjsListeners (self (step c m)) = pdfjsListeners (self m) @
       concat (replicate (length (filter is_ParsePDFData o1)) [Pdfjs_parseDataReady, Pdfjs_parseDataError])"
    using step_out [of c m] by blast
  obtain o2 where o2: "trace (run cs (step c m)) = trace (step c m) @ o2"
    "pdfjsListeners (self (run cs (step c m))) = pdfjsListeners (self (step c m)) @
       concat (replicate (length (filter is_ParsePDFData o2)) [Pdfjs_parseDataReady, Pdfjs_parseDataError])"
    using Cons.IH [of "step c m"] by blast
  have r: "run (c # cs) m = run cs (step c m)" by (simp add: run_def)
  have "trace (run (c # cs) m) = trace m @ (o1 @ o2)" using o1 o2 r by simp
  moreover have "pdfjsListeners (self (run (c # cs) m)) = pdfjsListeners (self m) @
       concat (replicate (length (filter is_ParsePDFData (o1 @ o2))) [Pdfjs_parseDataReady, Pdfjs_parseDataError])"
    using o1 o2 r by (simp add: replicate_add)
  ultimately show ?case by blast
qed

lemma run_listeners:
  "pdfjsListeners (self (run cs m)) =
     pdfjsListeners (self m) @
     concat (replicate (sessions m (run cs m)) [Pdfjs_parseDataReady, Pdfjs_parseDataError])"
proof -
  obtain out where o: "trace (run cs m) = trace m @ out"
    "pdfjsListeners (self (run cs m)) = pdfjsListeners (self m) @
       concat (replicate (length (filter is_ParsePDFData out)) [Pdfjs_parseDataReady, Pdfjs_parseDataError])"
    using run_out [of cs m] by blast
  have "sessions m (run cs m) = length (filter is_ParsePDFData out)"
    using o(1) by (simp add: sessions_def since_append)
  then show ?thesis using o(2) by simp
qed

lemma filter_pairs:
  "filter (\<lambda>l. l = Pdfjs_parseDataReady) (concat (replicate n [Pdfjs_parseDataReady, Pdfjs_parseDataError])) =
     replicate n Pdfjs_parseDataReady"
  "filter (\<lambda>l. l = Pdfjs_parseDataError) (concat (replicate n [Pdfjs_parseDataReady, Pdfjs_parseDataError])) =
     replicate n Pdfjs_parseDataError"
  by (induction n) simp_all

lemma fold_const_funpow: "fold (\<lambda>_. h) xs m = (h ^^ length xs) m"
  by (induction xs arbitrary: m) (simp_all add: funpow_swap1)

text \<open>
  Claim C10. Every session (every call of \<open>#startParsingPDF\<close>, from \<open>loadPDF\<close> or from
  \<open>parseBuffer\<close>) registers one more listener on each of the two events of the engine and
  none is ever removed: on a parser that starts without listeners, after \<open>n\<close> sessions the
  listeners are \<open>n\<close> pairs, every signal of the engine runs its handler \<open>n\<close> times, and an
  end-of-data or an error signal is republished \<open>n\<close> times.
\<close>

theorem listeners_accumulate:
  assumes "pdfjsListeners (self m) = []"
  shows "pdfjsListeners (self (run cs m)) =
           concat (replicate (sessions m (run cs m)) [Pdfjs_parseDataReady, Pdfjs_parseDataError]) \<and>
         pdfjs_emit (ParseDataReady d) (run cs m) =
           (onPDFJSParseDataReady d ^^ sessions m (run cs m)) (run cs m) \<and>
         pdfjs_emit (ParseDataError e) (run cs m) =
           (onPDFJSParserDataError e ^^ sessions m (run cs m)) (run cs m) \<and>
         signals (run cs m) (pdfjs_emit (ParseDataReady None) (run cs m)) =
           replicate (sessions m (run cs m))
             (Emit PdfParser_dataReady (FormImage (data (self (run cs m))))) \<and>
         signals (run cs m) (pdfjs_emit (ParseDataError e) (run cs m)) =
           replicate (sessions m (run cs m)) (Emit PdfParser_dataError (ParserError e))"
proof -
  let ?m = "run cs m" and ?n = "sessions m (run cs m)"
  have ls: "pdfjsListeners (self ?m) = concat (replicate ?n [Pdfjs_parseDataReady, Pdfjs_parseDataError])"
    using run_listeners [of cs m] assms by simp
  have lr: "listeners_of Pdfjs_parseDataReady ?m = replicate ?n Pdfjs_parseDataReady"
    and le: "listeners_of Pdfjs_parseDataError ?m = replicate ?n Pdfjs_parseDataError"
    unfolding listeners_of_def ls by (rule filter_pairs)+
  have a: "pdfjs_emit (ParseDataReady d) ?m = (onPDFJSParseDataReady d ^^ ?n) ?m"
    by (simp add: lr fold_const_funpow)
  have b: "pdfjs_emit (ParseDataError e) ?m = (onPDFJSParserDataError e ^^ ?n) ?m"
    by (simp add: le fold_const_funpow)
  have c: "signals ?m (pdfjs_emit (ParseDataReady None) ?m) =
             replicate ?n (Emit PdfParser_dataReady (FormImage (data (self ?m))))"
    unfolding signals_def
    by (subst since_append [OF pdfjs_emit_trace(1)]) (simp add: lr is_Emit_def)
  have d: "signals ?m (pdfjs_emit (ParseDataError e) ?m) =
             replicate ?n (Emit PdfParser_dataError (ParserError e))"
    unfolding signals_def
    by (subst since_append [OF pdfjs_emit_trace(3)]) (simp add: le is_Emit_def)
  from ls a b c d show ?thesis by blast
qed

theorem listeners_accumulate_witness:
  "pdfjsListeners (self (first_parser None :: nat machine)) = [] \<and>
   sessions (first_parser None :: nat machine)
     (run [ParseBuffer (Some []), Pdfjs (ParseDataReady None), ParseBuffer (Some [])] (first_parser None)) = 2 \<and>
   pdfjsListeners (self (run [ParseBuffer (Some []), Pdfjs (ParseDataReady None), ParseBuffer (Some [])]
                           (first_parser None :: nat machine))) =
     [Pdfjs_parseDataReady, Pdfjs_parseDataError, Pdfjs_parseDataReady, Pdfjs_parseDataError] \<and>
   signals (run [ParseBuffer (Some []), Pdfjs (ParseDataReady None), ParseBuffer (Some [])]
              (first_parser None :: nat machine))
     (pdfjs_emit (ParseDataError ''bad xref'')
        (run [ParseBuffer (Some []), Pdfjs (ParseDataReady None), ParseBuffer (Some [])] (first_parser None))) =
     [Emit PdfParser_dataError (ParserError ''bad xref''), Emit PdfParser_dataError (ParserError ''bad xref'')]"
proof -
  let ?m = "first_parser None :: nat machine"
  let ?cs = "[ParseBuffer (Some []), Pdfjs (ParseDataReady None), ParseBuffer (Some [])] :: nat call list"
  have l: "pdfjsListeners (self ?m) = []" by (simp add: first_parser_def construct_def)
  have n: "sessions ?m (run ?cs ?m) = 2" by (simp add: model_defs)
  from listeners_accumulate [OF l, of ?cs _ "''bad xref''"]
  have "pdfjsListeners (self (run ?cs ?m)) =
          concat (replicate (sessions ?m (run ?cs ?m)) [Pdfjs_parseDataReady, Pdfjs_parseDataError])"
    and "signals (run ?cs ?m) (pdfjs_emit (ParseDataError ''bad xref'') (run ?cs ?m)) =
           replicate (sessions ?m (run ?cs ?m)) (Emit PdfParser_dataError (ParserError ''bad xref''))"
    by blast+
  then have "pdfjsListeners (self (run ?cs ?m)) =
          [Pdfjs_parseDataReady, Pdfjs_parseDataError, Pdfjs_parseDataReady, Pdfjs_parseDataError]"
    and "signals (run ?cs ?m) (pdfjs_emit (ParseDataError ''bad xref'') (run ?cs ?m)) =
           [Emit PdfParser_dataError (ParserError ''bad xref''), Emit PdfParser_dataError (ParserError ''bad xref'')]"
    unfolding n by (simp_all add: numeral_2_eq_2)
  with l n show ?thesis by blast
qed


section \<open>The result after an error\<close>

text \<open>
  Claim C7. Whenever a step emits \<open>pdfParser_dataError\<close> (a failed read, or an error
  reported by the engine), the parser's \<open>data\<close> is \<open>null\<close> after that step: nothing merged
  before the error is left.
\<close>

theorem data_null_after_dataError:
  assumes "Emit PdfParser_dataError x \<in> set (since m (step c m))"
  shows "data (self (step c m)) = None"
proof (cases c)
  case (LoadPDF f st)
  show ?thesis
  proof (cases st)
    case (Inl e)
    have "since m (step c m) = [Thrown e]"
      by (rule since_append) (simp add: LoadPDF Inl loadPDF_throw)
    then show ?thesis using assms by simp
  next
    case (Inr t)
    show ?thesis
    proof (cases "lodash_has (binBuffer (statics m)) (StrKey (f @ t))")
      case True
      have "since m (step c m) =
              [ParsePDFData (obj_get (binBuffer (statics m)) (f @ t)) (password (self m))]"
        by (rule since_append)
           (simp add: LoadPDF Inr True loadPDF_hit startParsingPDF_trace binBufferKey_update)
      then show ?thesis using assms by simp
    next
      case False
      have "since m (step c m) = []"
        by (rule since_append) (simp add: LoadPDF Inr False loadPDF_miss)
      then show ?thesis using assms by simp
    qed
  qed
next
  case (ReadDone res)
  show ?thesis
  proof (cases "fq (self m)")
    case Nil
    have "since m (step c m) = []"
      by (rule since_append) (simp add: ReadDone Nil readDone_idle)
    then show ?thesis using assms by simp
  next
    case (Cons f rest)
    show ?thesis
    proof (cases res)
      case (Inl e)
      then show ?thesis using ReadDone Cons by (simp add: readDone_error)
    next
      case (Inr d)
      have "\<exists>a. since m (step c m) = [ReadFile f, ParsePDFData a (password (self m))]"
        by (intro exI, rule since_append)
           (simp add: ReadDone Cons Inr readDone_bytes startParsingPDF_trace)
      then show ?thesis using assms by auto
    qed
  qed
next
  case (ParseBuffer b)
  have "\<exists>a. since m (step c m) = [ParsePDFData a (password (self m))]"
    by (intro exI, rule since_append) (simp add: ParseBuffer parseBuffer_def startParsingPDF_trace)
  then show ?thesis using assms by auto
next
  case (Pdfjs sig)
  show ?thesis
  proof (cases sig)
    case (ParseDataReady d)
    have "set (since m (step c m)) \<subseteq> {Emit PdfParser_dataReady (FormImage (data (self m)))}"
    proof (cases d)
      case None
      have "since m (step c m) = replicate (length (listeners_of Pdfjs_parseDataReady m))
                 (Emit PdfParser_dataReady (FormImage (data (self m))))"
        by (rule since_append) (simp add: Pdfjs ParseDataReady None pdfjs_emit_trace del: pdfjs_emit.simps)
      then show ?thesis by auto
    next
      case (Some p)
      have "since m (step c m) = []"
        by (rule since_append) (simp add: Pdfjs ParseDataReady Some pdfjs_emit_trace del: pdfjs_emit.simps)
      then show ?thesis by simp
    qed
    then show ?thesis using assms by auto
  next
    case (ParseDataError e)
    have "since m (step c m) = replicate (length (listeners_of Pdfjs_parseDataError m))
                 (Emit PdfParser_dataError (ParserError e))"
      by (rule since_append) (simp add: Pdfjs ParseDataError pdfjs_emit_trace del: pdfjs_emit.simps)
    then have "listeners_of Pdfjs_parseDataError m \<noteq> []" using assms by auto
    then show ?thesis using Pdfjs ParseDataError pdfjs_emit_error_data by simp
  qed
qed

theorem data_null_after_dataError_witness:
  "Emit PdfParser_dataError (ParserError ''bad xref'') \<in>
     set (since (run [ParseBuffer (Some []), Pdfjs (ParseDataReady (Some [(''a'', 1::int)]))] (first_parser None))
            (step (Pdfjs (ParseDataError ''bad xref''))
               (run [ParseBuffer (Some []), Pdfjs (ParseDataReady (Some [(''a'', 1)]))] (first_parser None)))) \<and>
   data (self (run [ParseBuffer (Some []), Pdfjs (ParseDataReady (Some [(''a'', 1::int)]))] (first_parser None))) =
     Some [(''a'', 1)] \<and>
   data (self (step (Pdfjs (ParseDataError ''bad xref''))
      (run [ParseBuffer (Some []), Pdfjs (ParseDataReady (Some [(''a'', 1::int)]))] (first_parser None)))) = None"
proof -
  let ?m = "run [ParseBuffer (Some []), Pdfjs (ParseDataReady (Some [(''a'', 1::int)]))] (first_parser None)"
  have e: "Emit PdfParser_dataError (ParserError ''bad xref'') \<in>
             set (since ?m (step (Pdfjs (ParseDataError ''bad xref'')) ?m))"
    by (simp add: model_defs)
  have d: "data (self ?m) = Some [(''a'', 1)]" by (simp add: model_defs)
  from data_null_after_dataError [OF e] e d show ?thesis by blast
qed


section \<open>Sessions and their terminal signal\<close>








text \<open>The predicate singles out the steps that hand bytes to the engine.\<close>

lemma starts_session_sessions:
  "sessions m (step c m) = (if starts_session c m then 1 else 0)"
proof (cases c)
  case (LoadPDF f st)
  show ?thesis
  proof (cases st)
    case (Inl e)
    then show ?thesis using LoadPDF
      by (simp add: sessions_def since_append [where out = "[Thrown e]"] loadPDF_throw
            starts_session_def is_ParsePDFData_def)
  next
    case (Inr t)
    show ?thesis
    proof (cases "lodash_has (binBuffer (statics m)) (StrKey (f @ t))")
      case True
      have "since m (step c m) =
              [ParsePDFData (obj_get (binBuffer (statics m)) (f @ t)) (password (self m))]"
        by (rule since_append)
           (simp add: LoadPDF Inr True loadPDF_hit startParsingPDF_trace binBufferKey_update)
      then show ?thesis using LoadPDF Inr True
        by (simp add: sessions_def starts_session_def is_ParsePDFData_def)
    next
      case False
      have "since m (step c m) = []"
        by (rule since_append) (simp add: LoadPDF Inr False loadPDF_miss)
      then show ?thesis using LoadPDF Inr False by (simp add: sessions_def starts_session_def)
    qed
  qed
next
  case (ReadDone res)
  show ?thesis
  proof (cases "fq (self m)")
    case Nil
    have "since m (step c m) = []"
      by (rule since_append) (simp add: ReadDone Nil readDone_idle)
    then show ?thesis using ReadDone Nil
      by (simp add: sessions_def starts_session_def split: sum.split)
  next
    case (Cons f rest)
    show ?thesis
    proof (cases res)
      case (Inl e)
      have "since m (step c m) = [ReadFile f, Emit PdfParser_dataError (Bare e)]"
        by (rule since_append) (simp add: ReadDone Cons Inl readDone_error)
      then show ?thesis using ReadDone Inl
        by (simp add: sessions_def starts_session_def is_ParsePDFData_def)
    next
      case (Inr d)
      have "\<exists>a. since m (step c m) = [ReadFile f, ParsePDFData a (password (self m))]"
        by (intro exI, rule since_append)
           (simp add: ReadDone Cons Inr readDone_bytes startParsingPDF_trace)
      then show ?thesis using ReadDone Inr Cons
        by (auto simp: sessions_def starts_session_def is_ParsePDFData_def)
    qed
  qed
next
  case (ParseBuffer b)
  have "\<exists>a. since m (step c m) = [ParsePDFData a (password (self m))]"
    by (intro exI, rule since_append) (simp add: ParseBuffer parseBuffer_def startParsingPDF_trace)
  then show ?thesis using ParseBuffer
    by (auto simp: sessions_def starts_session_def is_ParsePDFData_def)
next
  case (Pdfjs sig)
  have "filter is_ParsePDFData (since m (step c m)) = []"
  proof (cases sig)
    case (ParseDataReady d)
    show ?thesis
    proof (cases d)
      case None
      have "since m (step c m) = replicate (length (listeners_of Pdfjs_parseDataReady m))
                 (Emit PdfParser_dataReady (FormImage (data (self m))))"
        by (rule since_append)
           (simp add: Pdfjs ParseDataReady None pdfjs_emit_trace del: pdfjs_emit.simps)
      then show ?thesis by (simp add: is_ParsePDFData_def)
    next
      case (Some p)
      have "since m (step c m) = []"
        by (rule since_append)
           (simp add: Pdfjs ParseDataReady Some pdfjs_emit_trace del: pdfjs_emit.simps)
      then show ?thesis by simp
    qed
  next
    case (ParseDataError e)
    have "since m (step c m) = replicate (length (listeners_of Pdfjs_parseDataError m))
                 (Emit PdfParser_dataError (ParserError e))"
      by (rule since_append) (simp add: Pdfjs ParseDataError pdfjs_emit_trace del: pdfjs_emit.simps)
    then show ?thesis by (simp add: is_ParsePDFData_def)
  qed
  then show ?thesis using Pdfjs by (simp add: sessions_def starts_session_def)
qed





section \<open>Merging the engine's objects\<close>

lemma fold_onReady_Some_data:
  assumes "distinct (map fst p)"
  shows "wf_data (data (self m)) \<Longrightarrow> xs \<noteq> [] \<Longrightarrow>
         \<exists>r. data (self (fold (\<lambda>_. onPDFJSParseDataReady (Some p)) xs m)) = Some r \<and>
             distinct (map fst r) \<and> (\<forall>k. obj_get r k = overridden (data (self m)) p k)"
proof (induction xs arbitrary: m)
  case Nil
  then show ?case by simp
next
  case (Cons x xs)
  let ?r1 = "spread (data (self m)) p"
  let ?m1 = "onPDFJSParseDataReady (Some p) m"
  have d1: "data (self ?m1) = Some ?r1" by (simp add: onReady_Some)
  have l1: "\<forall>k. obj_get ?r1 k = overridden (data (self m)) p k"
    using obj_get_spread [OF Cons.prems(1) assms] by simp
  show ?case
  proof (cases "xs = []")
    case True
    then show ?thesis using d1 l1 distinct_spread [of "data (self m)" p] by simp
  next
    case False
    have "wf_data (data (self ?m1))" by (simp add: d1 wf_data_def distinct_spread)
    from Cons.IH [OF this False]
    obtain r where r: "data (self (fold (\<lambda>_. onPDFJSParseDataReady (Some p)) xs ?m1)) = Some r"
      "distinct (map fst r)" "\<forall>k. obj_get r k = overridden (data (self ?m1)) p k"
      by blast
    have "\<forall>k. obj_get r k = overridden (data (self m)) p k"
      using r(3) l1 unfolding d1 by (simp add: overridden_idem)
    then show ?thesis using r(1,2) by simp
  qed
qed

lemma merge_example:
  "since (first_parser pw)
     (run [ParseBuffer (Some b),
           Pdfjs (ParseDataReady (Some [(''a'', 1)])),
           Pdfjs (ParseDataReady (Some [(''b'', 2)])),
           Pdfjs (ParseDataReady (Some [(''a'', 3)])),
           Pdfjs (ParseDataReady None)] (first_parser pw)) =
   [ParsePDFData (Some b) pw, Emit PdfParser_dataReady (FormImage (Some [(''a'', 3::int), (''b'', 2)]))]"
  by (simp add: model_defs)

text \<open>
  Claim C5. While a session is open, an object \<open>p\<close> from the engine is merged into \<open>data\<close>
  key by key: afterwards every key of \<open>p\<close> holds the value \<open>p\<close> gives it, every other key
  holds what it held before, and nothing is emitted. In particular the objects \<open>{a:1}\<close>,
  \<open>{b:2}\<close>, \<open>{a:3}\<close> followed by the end of data give \<open>{formImage: {a:3, b:2}}\<close>.
\<close>

theorem payload_merge_last_write_wins:
  assumes "wf_data (data (self m))" and "distinct (map fst p)"
    and "listeners_of Pdfjs_parseDataReady m \<noteq> []"
  shows "(\<exists>r. data (self (pdfjs_emit (ParseDataReady (Some p)) m)) = Some r \<and>
              distinct (map fst r) \<and>
              (\<forall>k. obj_get r k = overridden (data (self m)) p k)) \<and>
         trace (pdfjs_emit (ParseDataReady (Some p)) m) = trace m \<and>
         since (first_parser pw)
           (run [ParseBuffer (Some b),
                 Pdfjs (ParseDataReady (Some [(''a'', 1)])),
                 Pdfjs (ParseDataReady (Some [(''b'', 2)])),
                 Pdfjs (ParseDataReady (Some [(''a'', 3)])),
                 Pdfjs (ParseDataReady None)] (first_parser pw)) =
           [ParsePDFData (Some b) pw,
            Emit PdfParser_dataReady (FormImage (Some [(''a'', 3::int), (''b'', 2)]))]"
proof -
  have "\<exists>r. data (self (pdfjs_emit (ParseDataReady (Some p)) m)) = Some r \<and>
              distinct (map fst r) \<and>
              (\<forall>k. obj_get r k = overridden (data (self m)) p k)"
    unfolding pdfjs_emit.simps by (rule fold_onReady_Some_data [OF assms(2,1,3)])
  moreover have "trace (pdfjs_emit (ParseDataReady (Some p)) m) = trace m"
    by (rule pdfjs_emit_trace)
  ultimately show ?thesis using merge_example [of pw b] by blast
qed

theorem payload_merge_last_write_wins_witness:
  "wf_data (data (self (run [ParseBuffer (Some []),
                             Pdfjs (ParseDataReady (Some [(''a'', 1::int), (''b'', 2)]))]
                          (first_parser None)))) \<and>
   distinct (map fst [(''a'', 3::int)]) \<and>
   listeners_of Pdfjs_parseDataReady
     (run [ParseBuffer (Some []), Pdfjs (ParseDataReady (Some [(''a'', 1::int), (''b'', 2)]))]
        (first_parser None)) = [Pdfjs_parseDataReady] \<and>
   (\<exists>r. data (self (pdfjs_emit (ParseDataReady (Some [(''a'', 3::int)]))
            (run [ParseBuffer (Some []), Pdfjs (ParseDataReady (Some [(''a'', 1), (''b'', 2)]))]
               (first_parser None)))) = Some r \<and>
        obj_get r ''a'' = Some 3 \<and> obj_get r ''b'' = Some 2 \<and> obj_get r ''c'' = None)"
proof -
  let ?m = "run [ParseBuffer (Some []), Pdfjs (ParseDataReady (Some [(''a'', 1::int), (''b'', 2)]))]
              (first_parser None)"
  have d: "data (self ?m) = Some [(''a'', 1), (''b'', 2)]" by (simp add: model_defs)
  have w: "wf_data (data (self ?m))" unfolding d by (simp add: wf_data_def)
  have p: "distinct (map fst [(''a'', 3::int)])" by simp
  have l: "listeners_of Pdfjs_parseDataReady ?m = [Pdfjs_parseDataReady]" by (simp add: model_defs)
  then have l': "listeners_of Pdfjs_parseDataReady ?m \<noteq> []" by simp
  from payload_merge_last_write_wins [OF w p l']
  obtain r where r: "data (self (pdfjs_emit (ParseDataReady (Some [(''a'', 3::int)])) ?m)) = Some r"
    "\<forall>k. obj_get r k = overridden (data (self ?m)) [(''a'', 3)] k"
    by blast
  have "obj_get r ''a'' = Some 3" "obj_get r ''b'' = Some 2" "obj_get r ''c'' = None"
    using r(2) unfolding d by (simp_all add: overridden_def obj_get_def)
  then show ?thesis using w p l r(1) by blast
qed


section \<open>Loading a cached file\<close>

lemma reads_queued_load:
  "reads_queued (LoadPDF f st) m =
     (case st of
        Inl e \<Rightarrow> []
      | Inr t \<Rightarrow> if lodash_has (binBuffer (statics m)) (StrKey (f @ t)) then [] else [f])"
proof (cases st)
  case (Inl e)
  then show ?thesis by (simp add: reads_queued_def loadPDF_throw)
next
  case (Inr t)
  then show ?thesis
    by (cases "lodash_has (binBuffer (statics m)) (StrKey (f @ t))")
       (simp_all add: reads_queued_def loadPDF_hit loadPDF_miss startParsingPDF_frame)
qed

lemma load_queues_at_most_one: "length (reads_queued (LoadPDF f st) m) \<le> 1"
  by (simp add: reads_queued_load split: sum.split)

text \<open>
  A key that \<open>_.has\<close> resolves as a path is reported as cached although the cache does not
  hold it: with the six bytes of \<open>f\<close> cached under \<open>f1\<close>, a load of \<open>f\<close> with modification
  time \<open>1.5\<close> queues no read and hands \<open>undefined\<close> to the engine.
\<close>

lemma path_key_reported_cached:
  "since ((first_parser None :: nat machine)
            \<lparr>statics := \<lparr>nextId = 1, binBuffer = [(''f1'', [37, 80, 68, 70, 45, 49])]\<rparr>\<rparr>)
     (loadPDF ''f'' (Inr ''1.5'')
        ((first_parser None)
            \<lparr>statics := \<lparr>nextId = 1, binBuffer = [(''f1'', [37, 80, 68, 70, 45, 49])]\<rparr>\<rparr>)) =
   [ParsePDFData None None]"
  by (simp add: model_defs)

text \<open>
  Claim C6, as amended. When the cache holds bytes under the key of the load (the path
  followed by the modification time), \<open>loadPDF\<close> queues no read, leaves the statics alone
  and hands the cached bytes to the engine. Every load queues at most one read, and every
  queued read is one \<open>fs.readFile\<close>. So two loads of a path with the same modification
  time queue at most one read between them whenever the cache holds the bytes under the
  key when the second load starts, whatever happened in between. That is the case when
  the first load misses with nothing queued, its read completes with success and the
  second load follows directly: then the file is read once and both sessions parse the
  bytes of that read.
\<close>

theorem cached_load_skips_read:
  "(obj_get (binBuffer (statics m)) (f @ t) = Some bs \<longrightarrow>
      fq (self (loadPDF f (Inr t) m)) = fq (self m) \<and>
      statics (loadPDF f (Inr t) m) = statics m \<and>
      since m (loadPDF f (Inr t) m) = [ParsePDFData (Some bs) (password (self m))] \<and>
      reads_queued (LoadPDF f (Inr t)) m = [] \<and>
      length (reads_queued (LoadPDF f (Inr t)) m1) + length (reads_queued (LoadPDF f (Inr t)) m) \<le> 1) \<and>
   length (reads_queued (LoadPDF f st) m) \<le> 1 \<and>
   (fq (self m) \<noteq> [] \<longrightarrow>
      disk_reads m (readDone res m) = [ReadFile (hd (fq (self m)))] \<and>
      fq (self (readDone res m)) = tl (fq (self m))) \<and>
   (\<not> lodash_has (binBuffer (statics m)) (StrKey (f @ t)) \<and> fq (self m) = [] \<longrightarrow>
      since m (run [LoadPDF f (Inr t), ReadDone (Inr d), LoadPDF f (Inr t)] m) =
        [ReadFile f, ParsePDFData (Some d) (password (self m)),
         ParsePDFData (Some d) (password (self m))] \<and>
      disk_reads m (run [LoadPDF f (Inr t), ReadDone (Inr d), LoadPDF f (Inr t)] m) = [ReadFile f] \<and>
      fq (self (run [LoadPDF f (Inr t), ReadDone (Inr d), LoadPDF f (Inr t)] m)) = [])"
proof -
  have hit: "fq (self (loadPDF f (Inr t) m)) = fq (self m) \<and>
      statics (loadPDF f (Inr t) m) = statics m \<and>
      since m (loadPDF f (Inr t) m) = [ParsePDFData (Some bs) (password (self m))] \<and>
      reads_queued (LoadPDF f (Inr t)) m = [] \<and>
      length (reads_queued (LoadPDF f (Inr t)) m1) + length (reads_queued (LoadPDF f (Inr t)) m) \<le> 1"
    if g: "obj_get (binBuffer (statics m)) (f @ t) = Some bs"
  proof -
    have "obj_has (binBuffer (statics m)) (f @ t)" using g by (simp add: obj_has_iff)
    then have h: "lodash_has (binBuffer (statics m)) (StrKey (f @ t))" by (rule own_key_has)
    have s: "since m (loadPDF f (Inr t) m) = [ParsePDFData (Some bs) (password (self m))]"
      by (rule since_append)
         (simp add: loadPDF_hit [OF h] startParsingPDF_trace binBufferKey_update g)
    have r: "reads_queued (LoadPDF f (Inr t)) m = []" using h by (simp add: reads_queued_load)
    show ?thesis using s r load_queues_at_most_one [of f "Inr t" m1]
      by (simp add: loadPDF_hit [OF h] startParsingPDF_frame)
  qed
  have completes: "disk_reads m (readDone res m) = [ReadFile (hd (fq (self m)))] \<and>
      fq (self (readDone res m)) = tl (fq (self m))"
    if q: "fq (self m) \<noteq> []"
  proof -
    obtain p rest where p: "fq (self m) = p # rest" using q by (cases "fq (self m)") simp_all
    show ?thesis
    proof (cases res)
      case (Inl e)
      have "since m (readDone res m) = [ReadFile p, Emit PdfParser_dataError (Bare e)]"
        by (rule since_append) (simp add: Inl readDone_error [OF p])
      then show ?thesis
        by (simp add: disk_reads_def is_ReadFile_def p Inl readDone_error [OF p])
    next
      case (Inr d')
      have "\<exists>a. since m (readDone res m) = [ReadFile p, ParsePDFData a (password (self m))]"
        by (intro exI, rule since_append) (simp add: Inr readDone_bytes [OF p] startParsingPDF_trace)
      then show ?thesis
        by (auto simp: disk_reads_def is_ReadFile_def p Inr readDone_bytes [OF p] startParsingPDF_frame)
    qed
  qed
  have miss: "since m (run [LoadPDF f (Inr t), ReadDone (Inr d), LoadPDF f (Inr t)] m) =
        [ReadFile f, ParsePDFData (Some d) (password (self m)),
         ParsePDFData (Some d) (password (self m))] \<and>
      disk_reads m (run [LoadPDF f (Inr t), ReadDone (Inr d), LoadPDF f (Inr t)] m) = [ReadFile f] \<and>
      fq (self (run [LoadPDF f (Inr t), ReadDone (Inr d), LoadPDF f (Inr t)] m)) = []"
    if h: "\<not> lodash_has (binBuffer (statics m)) (StrKey (f @ t))" and q: "fq (self m) = []"
  proof -
    let ?m1 = "loadPDF f (Inr t) m"
    let ?m2 = "readDone (Inr d) ?m1"
    let ?m3 = "loadPDF f (Inr t) ?m2"
    let ?c = "obj_set (f @ t) d (recycle (inst_id (self m)) (binBuffer (statics m)))"
    have q1: "fq (self ?m1) = [f]" using q by (simp add: loadPDF_miss [OF h])
    have c2: "binBuffer (statics ?m2) = ?c"
      by (simp add: readDone_bytes [OF q1] startParsingPDF_frame)
         (simp add: loadPDF_miss [OF h] binBufferKey_update)
    have t2: "trace ?m2 = trace m @ [ReadFile f, ParsePDFData (Some d) (password (self m))]"
      by (simp add: readDone_bytes [OF q1] startParsingPDF_trace binBufferKey_update)
         (simp add: loadPDF_miss [OF h] binBufferKey_update obj_get_obj_set)
    have f2: "fq (self ?m2) = []" "password (self ?m2) = password (self m)"
      by (simp_all add: readDone_bytes [OF q1] startParsingPDF_frame)
         (simp add: loadPDF_miss [OF h])
    have h2: "lodash_has (binBuffer (statics ?m2)) (StrKey (f @ t))"
      unfolding c2 by (rule own_key_has [OF obj_has_obj_set])
    have t3: "trace ?m3 = trace m @ [ReadFile f, ParsePDFData (Some d) (password (self m)),
                ParsePDFData (Some d) (password (self m))]"
      by (simp add: loadPDF_hit [OF h2] startParsingPDF_trace binBufferKey_update c2 t2 f2
            obj_get_obj_set)
    have f3: "fq (self ?m3) = []"
      by (simp add: loadPDF_hit [OF h2] startParsingPDF_frame f2)
    have r: "run [LoadPDF f (Inr t), ReadDone (Inr d), LoadPDF f (Inr t)] m = ?m3"
      by (simp add: run_def)
    show ?thesis unfolding r disk_reads_def since_append [OF t3]
      using f3 by (simp add: is_ReadFile_def)
  qed
  from hit load_queues_at_most_one [of f st m] completes miss show ?thesis by blast
qed

theorem cached_load_skips_read_witness:
  "obj_get (binBuffer (statics ((first_parser None :: nat machine)
       \<lparr>statics := \<lparr>nextId = 1, binBuffer = cache_of [''/tmp/a.pdf'']\<rparr>\<rparr>))) (''/tmp/a.pdf'' @ ''1'') = Some [] \<and>
   since ((first_parser None :: nat machine)\<lparr>statics := \<lparr>nextId = 1, binBuffer = cache_of [''/tmp/a.pdf'']\<rparr>\<rparr>)
     (loadPDF ''/tmp/a.pdf'' (Inr ''1'')
        ((first_parser None)\<lparr>statics := \<lparr>nextId = 1, binBuffer = cache_of [''/tmp/a.pdf'']\<rparr>\<rparr>)) =
     [ParsePDFData (Some []) None] \<and>
   reads_queued (LoadPDF ''/tmp/a.pdf'' (Inr ''1''))
     ((first_parser None :: nat machine)\<lparr>statics := \<lparr>nextId = 1, binBuffer = cache_of [''/tmp/a.pdf'']\<rparr>\<rparr>) = [] \<and>
   \<not> lodash_has (binBuffer (statics (first_parser None :: nat machine))) (StrKey (''/tmp/a.pdf'' @ ''1'')) \<and>
   fq (self (first_parser None :: nat machine)) = [] \<and>
   fq (self (loadPDF ''/tmp/a.pdf'' (Inr ''1'') (first_parser None :: nat machine))) \<noteq> [] \<and>
   disk_reads (loadPDF ''/tmp/a.pdf'' (Inr ''1'') (first_parser None :: nat machine))
     (readDone (Inr [37, 80]) (loadPDF ''/tmp/a.pdf'' (Inr ''1'') (first_parser None))) =
     [ReadFile ''/tmp/a.pdf''] \<and>
   disk_reads (first_parser None :: nat machine)
     (run [LoadPDF ''/tmp/a.pdf'' (Inr ''1''), ReadDone (Inr [37, 80]), LoadPDF ''/tmp/a.pdf'' (Inr ''1'')]
        (first_parser None)) = [ReadFile ''/tmp/a.pdf'']"
proof -
  let ?m = "first_parser None :: nat machine"
  let ?h = "?m\<lparr>statics := \<lparr>nextId = 1, binBuffer = cache_of [''/tmp/a.pdf'']\<rparr>\<rparr>"
  let ?m1 = "loadPDF ''/tmp/a.pdf'' (Inr ''1'') ?m"
  have g: "obj_get (binBuffer (statics ?h)) (''/tmp/a.pdf'' @ ''1'') = Some []"
    by (simp add: cache_of_def obj_get_def)
  have p: "password (self ?h) = None" by (simp add: first_parser_def construct_def)
  have n: "\<not> lodash_has (binBuffer (statics ?m)) (StrKey (''/tmp/a.pdf'' @ ''1''))"
    by (simp add: model_defs)
  have q: "fq (self ?m) = []" by (simp add: first_parser_def construct_def)
  have q1: "fq (self ?m1) = [''/tmp/a.pdf'']" by (simp add: model_defs)
  then have q1': "fq (self ?m1) \<noteq> []" by simp
  have "since ?h (loadPDF ''/tmp/a.pdf'' (Inr ''1'') ?h) =
          [ParsePDFData (Some []) (password (self ?h))]"
    and a': "reads_queued (LoadPDF ''/tmp/a.pdf'' (Inr ''1'')) ?h = []"
    using cached_load_skips_read
            [where m = ?h and f = "''/tmp/a.pdf''" and t = "''1''" and bs = "[]"] g
    by blast+
  then have a: "since ?h (loadPDF ''/tmp/a.pdf'' (Inr ''1'') ?h) = [ParsePDFData (Some []) None]"
    unfolding p by simp
  have c: "disk_reads ?m1 (readDone (Inr [37, 80]) ?m1) = [ReadFile (hd (fq (self ?m1)))]"
    using cached_load_skips_read [where m = ?m1 and res = "Inr [37, 80]"] q1' by blast
  have b: "disk_reads ?m (run [LoadPDF ''/tmp/a.pdf'' (Inr ''1''), ReadDone (Inr [37, 80]),
              LoadPDF ''/tmp/a.pdf'' (Inr ''1'')] ?m) = [ReadFile ''/tmp/a.pdf'']"
    using cached_load_skips_read
            [where m = ?m and f = "''/tmp/a.pdf''" and t = "''1''" and d = "[37, 80]"] n q
    by blast
  have c': "disk_reads ?m1 (readDone (Inr [37, 80]) ?m1) = [ReadFile ''/tmp/a.pdf'']"
    using c q1 by simp
  from g a a' n q q1' c' b show ?thesis by blast
qed

text \<open>
  The claim as stated fails when the second load starts before the read of the first has
  completed: both loads miss the cache, both queue a read, and the file is read twice.
\<close>

theorem two_reads_for_two_loads:
  "disk_reads (first_parser None :: nat machine)
     (run [LoadPDF ''/tmp/a.pdf'' (Inr ''1''), LoadPDF ''/tmp/a.pdf'' (Inr ''1''),
           ReadDone (Inr [37, 80]), ReadDone (Inr [37, 80])] (first_parser None)) =
   [ReadFile ''/tmp/a.pdf'', ReadFile ''/tmp/a.pdf'']"
  by (simp add: model_defs)


section \<open>The size of the cache at rest\<close>

text \<open>
  Claim C1. The code at a failing input: one parser loads eleven different files, each
  read completing before the next load. The check \<open>allKeys.length > 10\<close> runs before the
  insertion and sees ten keys at the eleventh load, so nothing is recycled and the cache
  holds eleven buffers at rest, one more than \<open>#maxBinBufferCount\<close>.
\<close>

theorem eleven_buffers_at_rest:
  "obj_keys (binBuffer (statics (run
      (loads_in_turn [''a'', ''b'', ''c'', ''d'', ''e'', ''f'', ''g'', ''h'', ''i'', ''j'', ''k''])
      (first_parser None :: nat machine)))) =
     [''a1'', ''b1'', ''c1'', ''d1'', ''e1'', ''f1'', ''g1'', ''h1'', ''i1'', ''j1'', ''k1''] \<and>
   maxBinBufferCount <
     length (obj_keys (binBuffer (statics (run
      (loads_in_turn [''a'', ''b'', ''c'', ''d'', ''e'', ''f'', ''g'', ''h'', ''i'', ''j'', ''k''])
      (first_parser None :: nat machine)))))"
  by (simp add: loads_in_turn_def model_defs)

text \<open>
  From then on every load of a new file recycles one entry and inserts one: the cache
  stays at eleven.
\<close>

lemma twelfth_load_recycles_one:
  "obj_keys (binBuffer (statics (run
      (loads_in_turn [''a'', ''b'', ''c'', ''d'', ''e'', ''f'', ''g'', ''h'', ''i'', ''j'', ''k'', ''l''])
      (first_parser None :: nat machine)))) =
     [''b1'', ''c1'', ''d1'', ''e1'', ''f1'', ''g1'', ''h1'', ''i1'', ''j1'', ''k1'', ''l1'']"
  by (simp add: loads_in_turn_def model_defs)

text \<open>
  What does hold when every read completes before the next load: right after the check the
  cache holds at most \<open>maxBinBufferCount\<close> entries, and at rest at most one more.
\<close>

lemma recycle_bound:
  assumes "distinct (obj_keys c)" and "length (obj_keys c) \<le> Suc maxBinBufferCount"
  shows "length (obj_keys (recycle i c)) \<le> maxBinBufferCount"
proof (cases "maxBinBufferCount < length (obj_keys c)")
  case True
  have idx: "i mod maxBinBufferCount < length c"
    using True by (simp add: obj_keys_def maxBinBufferCount_def)
  have "recycle i c = take (i mod maxBinBufferCount) c @ drop (Suc (i mod maxBinBufferCount)) c"
    using True assms(1) idx filter_neq_nth [of c "i mod maxBinBufferCount"]
    by (simp add: recycle_def obj_delete_def obj_keys_def Let_def)
  then show ?thesis using idx assms(2) by (simp add: obj_keys_def)
next
  case False
  then show ?thesis by (simp add: recycle_def Let_def)
qed

lemma length_obj_insert: "length (obj_insert k v c) = Suc (length c)"
  by (induction c) auto

lemma length_obj_set: "length (obj_keys (obj_set k v c)) \<le> Suc (length (obj_keys c))"
  by (simp add: obj_set_def obj_keys_def length_obj_insert)

lemma load_and_read_bound:
  assumes "distinct (obj_keys (binBuffer (statics m)))"
    and "length (obj_keys (binBuffer (statics m))) \<le> Suc maxBinBufferCount"
    and "fq (self m) = []"
  shows "length (obj_keys (binBuffer (statics (run [LoadPDF f (Inr t), ReadDone (Inr d)] m)))) \<le>
           Suc maxBinBufferCount"
proof (cases "lodash_has (binBuffer (statics m)) (StrKey (f @ t))")
  case True
  then show ?thesis using assms
    by (simp add: run_def loadPDF_hit startParsingPDF_frame readDone_idle)
next
  case False
  let ?m1 = "loadPDF f (Inr t) m"
  have q: "fq (self ?m1) = [f]" using assms(3) by (simp add: loadPDF_miss [OF False])
  have c1: "binBuffer (statics ?m1) = recycle (inst_id (self m)) (binBuffer (statics m))"
    by (simp add: loadPDF_miss [OF False])
  have "length (obj_keys (binBuffer (statics ?m1))) \<le> maxBinBufferCount"
    unfolding c1 by (rule recycle_bound [OF assms(1,2)])
  moreover have "length (obj_keys (binBuffer (statics (readDone (Inr d) ?m1)))) \<le>
                 Suc (length (obj_keys (binBuffer (statics ?m1))))"
    by (simp add: readDone_bytes [OF q] startParsingPDF_frame length_obj_set)
  ultimately show ?thesis by (simp add: run_def)
qed


section \<open>The payload of a failed read\<close>

text \<open>
  Claim C4. The code at a failing input: the read of a load fails. Exactly one
  \<open>pdfParser_dataError\<close> is emitted and no \<open>pdfParser_dataReady\<close>, but the payload is the
  error itself, not \<open>{parserError: error}\<close> as \<open>#onPDFJSParserDataError\<close> emits it.
\<close>

theorem read_failure_payload_is_bare:
  "since (first_parser None :: nat machine)
     (run [LoadPDF ''/tmp/a.pdf'' (Inr ''1''), ReadDone (Inl ''EACCES'')] (first_parser None)) =
   [ReadFile ''/tmp/a.pdf'', Emit PdfParser_dataError (Bare ''EACCES'')]"
  by (simp add: model_defs)

end
